theory Spec2Isabelle
  imports Complex_Main "HOL-Library.Word" "HOL-Library.Monad_Syntax"
begin

section \<open>The MPI+OpenMP matrix transpose kernel (MPIOPENMP/Transpose/transpose.c)\<close>

text \<open>
  The program is one \<open>main\<close> run by \<open>Num_procs\<close> ranks. Its parts are embedded in the
  order of the source: the counted loops, the arrays of doubles, the layout and the tiling
  decision (lines 231-243), the allocation and initialisation (lines 271-319), the
  iteration loop with the local transpose, the staged exchange and the scatter (lines
  321-403), the verification (lines 409-419) and the timing report (lines 405-422).

  Conventions. A \<open>size_t\<close> has 64 bits and an \<open>int\<close> 32. The \<open>size_t\<close> values are
  naturals, and the products that size the arrays (\<open>Colblock_size\<close>, \<open>Block_size\<close>, the
  byte counts given to \<open>malloc\<close>, \<open>bytes\<close>) are taken modulo \<open>2 ^ 64\<close>; the ring partners
  are computed on \<open>64 word\<close>, the \<open>int\<close> variables of the tiling decision and the \<open>int\<close>
  count of a message on \<open>32 word\<close> read by \<open>sint\<close>. The predicate \<open>in_range\<close> below names
  the inputs on which none of these wraps; the statements about a run assume it. A
  \<open>double\<close> holding a matrix element is a real number: the program stores only images of
  \<open>size_t\<close> values and \<open>-1.0\<close> and copies them, and \<open>in_range\<close> keeps every such value
  at or below \<open>2 ^ 53\<close>, where the conversion \<open>(double)\<close> does not round. The arithmetic on
  doubles in the verification and in the timing report rounds: it goes through a
  function \<open>rnd\<close>, the rounding of a real number to a double on the platform. An access
  outside an array, a message that MPI refuses, a receive that no send matches, and a
  loop that does not end are the result \<open>None\<close>. The loops marked
  \<open>#pragma omp parallel for\<close> whose iterations store to different cells are run in the
  order of their indices; the loop of the verification, whose iterations all update one
  variable, is run by threads.
\<close>

subsection \<open>Counted loops\<close>

text \<open>
  \<open>for (i = i0; i < n; i += t) body\<close> on a state \<open>s\<close>. With \<open>t = 0\<close> the C loop never
  leaves an index below \<open>n\<close>: the result is \<open>None\<close>.
\<close>

function for_step :: "nat \<Rightarrow> nat \<Rightarrow> nat \<Rightarrow> (nat \<Rightarrow> 's \<Rightarrow> 's option) \<Rightarrow> 's \<Rightarrow> 's option" where
  "for_step i n t body s =
     (if i < n then
        (if t = 0 then None
         else (case body i s of None \<Rightarrow> None | Some s' \<Rightarrow> for_step (i + t) n t body s'))
      else Some s)"
  by pat_completeness auto
termination
  by (relation "measure (\<lambda>(i, n, t, body, s). n - i)") auto

declare for_step.simps [simp del]

text \<open>
  The two loop nests of the program. The flat nest is
  \<open>for (i=0; i<n; i++) for (j=0; j<m; j++) body(i,j)\<close>; the tiled nest is
  \<open>for (i=0; i<n; i+=T) for (j=0; j<m; j+=T) for (it=i; it<MIN(n,i+T); it++)
  for (jt=j; jt<MIN(m,j+T); jt++) body(it,jt)\<close>.
\<close>

definition flat_nest :: "nat \<Rightarrow> nat \<Rightarrow> (nat \<Rightarrow> nat \<Rightarrow> 's \<Rightarrow> 's option) \<Rightarrow> 's \<Rightarrow> 's option" where
  "flat_nest n m body = for_step 0 n 1 (\<lambda>i. for_step 0 m 1 (\<lambda>j. body i j))"

definition tiled_nest ::
  "nat \<Rightarrow> nat \<Rightarrow> nat \<Rightarrow> (nat \<Rightarrow> nat \<Rightarrow> 's \<Rightarrow> 's option) \<Rightarrow> 's \<Rightarrow> 's option" where
  "tiled_nest n m T body =
     for_step 0 n T (\<lambda>i. for_step 0 m T (\<lambda>j.
       for_step i (min n (i + T)) 1 (\<lambda>it.
         for_step j (min m (j + T)) 1 (\<lambda>jt. body it jt))))"

subsection \<open>Arrays of doubles\<close>

text \<open>
  A cell holds its double and, as a ghost, the number of stores made to it so far. No
  load reads the counter. \<open>malloc\<close> returns cells of indeterminate content \<open>junk\<close>.
\<close>

type_synonym cell = "real \<times> nat"
type_synonym arr = "cell list"

definition malloc :: "(nat \<Rightarrow> real) \<Rightarrow> nat \<Rightarrow> arr" where
  "malloc junk n = map (\<lambda>k. (junk k, 0)) [0..<n]"

definition load :: "arr \<Rightarrow> nat \<Rightarrow> real option" where
  "load a k = (if k < length a then Some (fst (a ! k)) else None)"

definition store :: "arr \<Rightarrow> nat \<Rightarrow> real \<Rightarrow> arr option" where
  "store a k x = (if k < length a then Some (a[k := (x, Suc (snd (a ! k)))]) else None)"

text \<open>
  The macros of lines 125-128: \<open>A(i,j)\<close> and \<open>B(i,j)\<close> are
  \<open>A_p[(i+istart)+order*(j)]\<close> and \<open>B_p[(i+istart)+order*(j)]\<close>, \<open>Work_in(i,j)\<close> and
  \<open>Work_out(i,j)\<close> are \<open>Work_in_p[i+Block_order*(j)]\<close> and \<open>Work_out_p[i+Block_order*(j)]\<close>.
\<close>

definition colblock_ix :: "nat \<Rightarrow> nat \<Rightarrow> nat \<Rightarrow> nat \<Rightarrow> nat" where
  "colblock_ix istart ord i j = (i + istart) + ord * j"

definition work_ix :: "nat \<Rightarrow> nat \<Rightarrow> nat \<Rightarrow> nat" where
  "work_ix Bo i j = i + Bo * j"

subsection \<open>Ring partners (lines 353-354)\<close>

text \<open>
  \<open>recv_from = (my_ID + phase)%Num_procs\<close> and
  \<open>send_to = (my_ID - phase + Num_procs)%Num_procs\<close>: \<open>phase\<close> is a \<open>size_t\<close>, so both are
  unsigned 64-bit expressions, and \<open>my_ID - phase\<close> wraps when \<open>phase\<close> exceeds \<open>my_ID\<close>.
\<close>

definition recv_from :: "nat \<Rightarrow> nat \<Rightarrow> nat \<Rightarrow> nat" where
  "recv_from my_ID phase P =
     unat (((word_of_nat my_ID :: 64 word) + word_of_nat phase) mod word_of_nat P)"

definition send_to :: "nat \<Rightarrow> nat \<Rightarrow> nat \<Rightarrow> nat" where
  "send_to my_ID phase P =
     unat (((word_of_nat my_ID :: 64 word) - word_of_nat phase + word_of_nat P)
             mod word_of_nat P)"

subsection \<open>Inputs, layout and the tiling decision (lines 231-243)\<close>

text \<open>
  The inputs after the broadcast of lines 218-221, the build option \<open>COLLAPSE\<close>, and
  \<open>garbage_int\<close>: the value the platform gives to the conversion \<open>(int)\<close> of a double
  that has no \<open>int\<close> value (C leaves it open; x86-64 gives \<open>INT_MIN\<close>).
\<close>

record params =
  order :: nat
  Num_procs :: nat
  Tile_order :: nat
  nthread_input :: "32 word"
  iterations :: nat
  COLLAPSE :: bool
  garbage_int :: "32 word"

definition Block_order :: "params \<Rightarrow> nat" where
  "Block_order c = order c div Num_procs c"

definition colstart :: "params \<Rightarrow> nat \<Rightarrow> nat" where
  "colstart c my_ID = Block_order c * my_ID"

definition Colblock_size :: "params \<Rightarrow> nat" where
  "Colblock_size c = (order c * Block_order c) mod 2 ^ 64"

definition Block_size :: "params \<Rightarrow> nat" where
  "Block_size c = (Block_order c * Block_order c) mod 2 ^ 64"

text \<open>
  The tests of lines 187-210 that the root makes on the arguments (their number, tested
  at line 180, is not an input here).
  \<open>iterations = atoi(...)\<close> and \<open>order = atoi(...)\<close> assign an \<open>int\<close> to a \<open>size_t\<close>, so
  that a negative number passes them as a value of \<open>2 ^ 64 - 2 ^ 31\<close> or more.
  \<open>MAX_THREADS\<close> is a macro of \<open>par-res-kern_mpiomp.h\<close>, which is not among the sources:
  it is a parameter.
\<close>

definition accepted :: "int \<Rightarrow> params \<Rightarrow> bool" where
  "accepted MAX_THREADS c \<longleftrightarrow>
     \<not> (sint (nthread_input c) < 1 \<or> sint (nthread_input c) > MAX_THREADS) \<and>
     \<not> iterations c < 1 \<and>
     \<not> order c < Num_procs c \<and>
     \<not> order c mod Num_procs c \<noteq> 0"

text \<open>
  The inputs on which no integer expression of lines 231-403 leaves its type and every
  matrix element is a double. \<open>Num_procs\<close> is a positive \<open>int\<close>. Every element value
  \<open>order*(j+colstart) + i\<close> is below \<open>order * order\<close>, which is at most \<open>2 ^ 53\<close>: the
  conversion \<open>(double)\<close> of lines 308, 316 and 413 does not round, and, the order being
  below \<open>2 ^ 27\<close>, neither \<open>Colblock_size\<close>, \<open>Block_size\<close>, an index, a byte count of
  \<open>malloc\<close> nor \<open>bytes\<close> wraps. The counter \<open>iter\<close> of line 321 is a \<open>size_t\<close>, and
  \<open>iter<=iterations\<close> can fail only if \<open>iterations\<close> is not the largest one. When messages
  are exchanged, \<open>Block_size\<close> is the \<open>int\<close> count of lines 357, 384, 389 and 390.
\<close>

definition in_range :: "params \<Rightarrow> bool" where
  "in_range c \<longleftrightarrow>
     1 \<le> Num_procs c \<and> Num_procs c < 2 ^ 31 \<and>
     order c * order c \<le> 2 ^ 53 \<and>
     iterations c < 2 ^ 64 - 1 \<and>
     (1 < Num_procs c \<longrightarrow> Block_order c * Block_order c < 2 ^ 31)"

text \<open>
  \<open>concurrency = ceil((double)Block_order/(double)Tile_order)\<close>. The quotient of two
  doubles is a number, an infinity or a NaN; both operands are below \<open>2 ^ 31\<close> here, where
  the rounded quotient and the exact one have the same ceiling.
\<close>

datatype fp = Finite real | Infinity | NaN

definition fdiv :: "nat \<Rightarrow> nat \<Rightarrow> fp" where
  "fdiv x y = (if y = 0 then (if x = 0 then NaN else Infinity) else Finite (real x / real y))"

fun fceil :: "fp \<Rightarrow> fp" where
  "fceil (Finite r) = Finite (of_int \<lceil>r\<rceil>)"
| "fceil Infinity = Infinity"
| "fceil NaN = NaN"

definition to_int :: "32 word \<Rightarrow> fp \<Rightarrow> 32 word" where
  "to_int g x =
     (case x of
        Finite r \<Rightarrow>
          (let z = (if 0 \<le> r then \<lfloor>r\<rfloor> else \<lceil>r\<rceil>)
           in if - (2 ^ 31) \<le> z \<and> z < 2 ^ 31 then word_of_int z else g)
      | Infinity \<Rightarrow> g
      | NaN \<Rightarrow> g)"

definition concurrency :: "params \<Rightarrow> 32 word" where
  "concurrency c =
     (let k = to_int (garbage_int c) (fceil (fdiv (Block_order c) (Tile_order c)))
      in if COLLAPSE c then k * k else k)"

definition tiling :: "params \<Rightarrow> bool" where
  "tiling c =
     (let t = (Tile_order c > 0 \<and> Tile_order c < order c)
      in if t \<and> sint (concurrency c) < sint (nthread_input c) then False else t)"

text \<open>
  The same lines as the C standard defines them. The conversion \<open>(int)\<close> of a double is
  defined when the truncated value is an \<open>int\<close>, and the product of two \<open>int\<close> when it
  is an \<open>int\<close>; otherwise the behaviour is undefined (C11 6.3.1.4 and 6.5), which is
  \<open>None\<close> here. \<open>concurrency\<close> and \<open>tiling\<close> above say what the targets compute in those
  cases too.
\<close>

definition int_of_double :: "fp \<Rightarrow> 32 word option" where
  "int_of_double x =
     (case x of
        Finite r \<Rightarrow>
          (let z = (if 0 \<le> r then \<lfloor>r\<rfloor> else \<lceil>r\<rceil>)
           in if - (2 ^ 31) \<le> z \<and> z < 2 ^ 31 then Some (word_of_int z) else None)
      | Infinity \<Rightarrow> None
      | NaN \<Rightarrow> None)"

definition int_times :: "32 word \<Rightarrow> 32 word \<Rightarrow> 32 word option" where
  "int_times a b =
     (if - (2 ^ 31) \<le> sint a * sint b \<and> sint a * sint b < 2 ^ 31 then Some (a * b) else None)"

definition concurrency_std :: "params \<Rightarrow> 32 word option" where
  "concurrency_std c = do {
     k \<leftarrow> int_of_double (fceil (fdiv (Block_order c) (Tile_order c)));
     if COLLAPSE c then int_times k k else Some k }"

definition tiling_std :: "params \<Rightarrow> bool option" where
  "tiling_std c =
     (let t = (Tile_order c > 0 \<and> Tile_order c < order c)
      in do { k \<leftarrow> concurrency_std c;
              Some (if t \<and> sint k < sint (nthread_input c) then False else t) })"

subsection \<open>Allocation and initialisation (lines 271-319)\<close>

text \<open>
  The state of one rank. \<open>malloc(Colblock_size*sizeof(double))\<close> gets a \<open>size_t\<close> byte
  count and returns a block of that many bytes, which holds an eighth as many doubles;
  a run in which \<open>malloc\<close> returns \<open>NULL\<close> ends at \<open>bail_out\<close> before any of the steps
  below. The workspace exists only with more than one rank (line 285); it is one block
  of \<open>2*Block_size*sizeof(double)\<close> bytes, of which \<open>Work_in_p\<close> is the first \<open>Block_size\<close>
  doubles and \<open>Work_out_p = Work_in_p + Block_size\<close> the rest.
\<close>

record peer =
  A_p :: arr
  B_p :: arr
  Work_in_p :: arr
  Work_out_p :: arr

definition doubles_in :: "nat \<Rightarrow> nat" where
  "doubles_in n = ((n * 8) mod 2 ^ 64) div 8"

definition allocate :: "params \<Rightarrow> (nat \<Rightarrow> nat \<Rightarrow> real) \<Rightarrow> peer" where
  "allocate c junk =
     (let work = doubles_in (2 * Block_size c)
      in \<lparr>A_p = malloc (junk 0) (doubles_in (Colblock_size c)),
          B_p = malloc (junk 1) (doubles_in (Colblock_size c)),
          Work_in_p = (if Num_procs c > 1 then malloc (junk 2) (min (Block_size c) work) else []),
          Work_out_p = (if Num_procs c > 1 then malloc (junk 3) (work - Block_size c) else [])\<rparr>)"

text \<open>
  The body of both initialisation nests, with \<open>istart = 0\<close>:
  \<open>A(i,j) = (double)(order*(j+colstart) + i); B(i,j) = -1.0\<close>.
\<close>

definition init_cell :: "params \<Rightarrow> nat \<Rightarrow> nat \<Rightarrow> nat \<Rightarrow> arr \<times> arr \<Rightarrow> (arr \<times> arr) option" where
  "init_cell c my_ID i j = (\<lambda>(a, b). do {
      a' \<leftarrow> store a (colblock_ix 0 (order c) i j) (real (order c * (j + colstart c my_ID) + i));
      b' \<leftarrow> store b (colblock_ix 0 (order c) i j) (- 1);
      Some (a', b') })"

definition initialise :: "params \<Rightarrow> nat \<Rightarrow> peer \<Rightarrow> peer option" where
  "initialise c my_ID p = do {
     (a, b) \<leftarrow>
       (if tiling c then
          tiled_nest (Block_order c) (order c) (Tile_order c)
            (\<lambda>jt it. init_cell c my_ID it jt) (A_p p, B_p p)
        else
          flat_nest (Block_order c) (order c) (\<lambda>j i. init_cell c my_ID i j) (A_p p, B_p p));
     Some (p\<lparr>A_p := a, B_p := b\<rparr>) }"

subsection \<open>The local transpose (lines 330-350 and 361-381)\<close>

text \<open>
  \<open>dst[d] = src[s]\<close>, and the two strategies. Both sites run the same nests on the block
  of \<open>A\<close> at \<open>istart\<close>; they differ in the destination macro \<open>dest\<close>, which is \<open>B\<close> at
  lines 335 and 348 and \<open>Work_out\<close> at lines 366 and 379.
\<close>

definition copy_cell :: "arr \<Rightarrow> nat \<Rightarrow> nat \<Rightarrow> arr \<Rightarrow> arr option" where
  "copy_cell src s d dst = do { x \<leftarrow> load src s; store dst d x }"

definition transpose_flat ::
  "nat \<Rightarrow> nat \<Rightarrow> nat \<Rightarrow> (nat \<Rightarrow> nat \<Rightarrow> nat) \<Rightarrow> arr \<Rightarrow> arr \<Rightarrow> arr option" where
  "transpose_flat Bo ord istart dest a =
     flat_nest Bo Bo (\<lambda>i j. copy_cell a (colblock_ix istart ord i j) (dest j i))"

definition transpose_tiled ::
  "nat \<Rightarrow> nat \<Rightarrow> nat \<Rightarrow> nat \<Rightarrow> (nat \<Rightarrow> nat \<Rightarrow> nat) \<Rightarrow> arr \<Rightarrow> arr \<Rightarrow> arr option" where
  "transpose_tiled Bo T ord istart dest a =
     tiled_nest Bo Bo T (\<lambda>it jt. copy_cell a (colblock_ix istart ord it jt) (dest jt it))"

definition local_transpose ::
  "params \<Rightarrow> nat \<Rightarrow> (nat \<Rightarrow> nat \<Rightarrow> nat) \<Rightarrow> arr \<Rightarrow> arr \<Rightarrow> arr option" where
  "local_transpose c istart dest a b =
     (if \<not> tiling c then transpose_flat (Block_order c) (order c) istart dest a b
      else transpose_tiled (Block_order c) (Tile_order c) (order c) istart dest a b)"

definition self_transpose :: "params \<Rightarrow> nat \<Rightarrow> peer \<Rightarrow> peer option" where
  "self_transpose c my_ID p =
     (let istart = colstart c my_ID
      in do { b \<leftarrow> local_transpose c istart (colblock_ix istart (order c)) (A_p p) (B_p p);
              Some (p\<lparr>B_p := b\<rparr>) })"

definition pack :: "params \<Rightarrow> nat \<Rightarrow> nat \<Rightarrow> peer \<Rightarrow> peer option" where
  "pack c phase my_ID p =
     (let istart = send_to my_ID phase (Num_procs c) * Block_order c
      in do { w \<leftarrow> local_transpose c istart (work_ix (Block_order c)) (A_p p) (Work_out_p p);
              Some (p\<lparr>Work_out_p := w\<rparr>) })"

subsection \<open>The exchange and the scatter (lines 356-400)\<close>

text \<open>
  All ranks run the same statement of \<open>main\<close> before any runs the next one. The count of
  a message is an \<open>int\<close> parameter of MPI, to which the program passes the \<open>size_t\<close>
  \<open>Block_size\<close>: MPI gets its low 32 bits as a signed number and refuses a negative one.
  A send posts that many doubles of \<open>Work_out_p\<close> under (source, destination, tag); a
  receive takes the message posted for (\<open>recv_from\<close>, \<open>my_ID\<close>, \<open>phase\<close>) into \<open>Work_in_p\<close>
  and is \<open>None\<close> when there is none or when it is longer than the count. \<open>MPI_Irecv\<close>,
  \<open>MPI_Isend\<close> and the two \<open>MPI_Wait\<close>, or \<open>MPI_Sendrecv\<close> under \<open>SYNCHRONOUS\<close>, are this
  one rendezvous.
\<close>

definition all_ranks :: "(nat \<Rightarrow> 'p \<Rightarrow> 'q option) \<Rightarrow> 'p list \<Rightarrow> 'q list option" where
  "all_ranks f ps = those (map (\<lambda>r. f r (ps ! r)) [0..<length ps])"

type_synonym message = "(nat \<times> nat \<times> nat) \<times> real list"

definition MPI_count :: "params \<Rightarrow> int" where
  "MPI_count c = sint (word_of_nat (Block_size c) :: 32 word)"

definition MPI_send :: "params \<Rightarrow> nat \<Rightarrow> nat \<Rightarrow> peer \<Rightarrow> message option" where
  "MPI_send c phase my_ID p =
     (if 0 \<le> MPI_count c \<and> nat (MPI_count c) \<le> length (Work_out_p p)
      then Some ((my_ID, send_to my_ID phase (Num_procs c), phase),
                 map fst (take (nat (MPI_count c)) (Work_out_p p)))
      else None)"

definition MPI_recv :: "params \<Rightarrow> nat \<Rightarrow> message list \<Rightarrow> nat \<Rightarrow> peer \<Rightarrow> peer option" where
  "MPI_recv c phase net my_ID p =
     (case map_of net (recv_from my_ID phase (Num_procs c), my_ID, phase) of
        None \<Rightarrow> None
      | Some msg \<Rightarrow>
          if 0 \<le> MPI_count c \<and> length msg \<le> nat (MPI_count c)
          then do { w \<leftarrow> for_step 0 (length msg) 1 (\<lambda>k w. store w k (msg ! k)) (Work_in_p p);
                    Some (p\<lparr>Work_in_p := w\<rparr>) }
          else None)"

definition exchange :: "params \<Rightarrow> nat \<Rightarrow> peer list \<Rightarrow> peer list option" where
  "exchange c phase ps = do {
     net \<leftarrow> all_ranks (MPI_send c phase) ps;
     all_ranks (MPI_recv c phase net) ps }"

definition scatter :: "params \<Rightarrow> nat \<Rightarrow> nat \<Rightarrow> peer \<Rightarrow> peer option" where
  "scatter c phase my_ID p =
     (let istart = recv_from my_ID phase (Num_procs c) * Block_order c
      in do { b \<leftarrow> flat_nest (Block_order c) (Block_order c)
                     (\<lambda>j i. copy_cell (Work_in_p p) (work_ix (Block_order c) i j)
                              (colblock_ix istart (order c) i j)) (B_p p);
              Some (p\<lparr>B_p := b\<rparr>) })"

subsection \<open>The iteration loop (lines 321-403)\<close>

definition phase_step :: "params \<Rightarrow> nat \<Rightarrow> peer list \<Rightarrow> peer list option" where
  "phase_step c phase ps = do {
     ps1 \<leftarrow> all_ranks (pack c phase) ps;
     ps2 \<leftarrow> exchange c phase ps1;
     all_ranks (scatter c phase) ps2 }"

definition transpose_once :: "params \<Rightarrow> peer list \<Rightarrow> peer list option" where
  "transpose_once c ps = do {
     ps1 \<leftarrow> all_ranks (self_transpose c) ps;
     for_step 1 (Num_procs c) 1 (phase_step c) ps1 }"

text \<open>
  The ranks together with the record of the calls that delimit the timing:
  \<open>MPI_Barrier\<close> and \<open>wtime()\<close> at \<open>iter == 1\<close> (lines 324-327) and \<open>wtime()\<close> at line 405,
  each with the state of the ranks at the call.
\<close>

datatype event = Barrier | Timer_start | Timer_stop

record world =
  ranks :: "peer list"
  trace :: "(event \<times> peer list) list"

definition iteration :: "params \<Rightarrow> nat \<Rightarrow> world \<Rightarrow> world option" where
  "iteration c iter w =
     (let w1 = (if iter = 1
                then w\<lparr>trace := trace w @ [(Barrier, ranks w), (Timer_start, ranks w)]\<rparr>
                else w)
      in do { ps \<leftarrow> transpose_once c (ranks w1);
              Some (w1\<lparr>ranks := ps\<rparr>) })"

definition start :: "params \<Rightarrow> (nat \<Rightarrow> nat \<Rightarrow> nat \<Rightarrow> real) \<Rightarrow> world option" where
  "start c junk = do {
     ps \<leftarrow> all_ranks (initialise c) (map (\<lambda>r. allocate c (junk r)) [0..<Num_procs c]);
     Some \<lparr>ranks = ps, trace = []\<rparr> }"

text \<open>
  \<open>for (iter = 0; iter<=iterations; iter++)\<close> and line 405. The counter is a \<open>size_t\<close>:
  when \<open>iterations\<close> is the largest one the test never fails and the loop does not end.
\<close>

definition iterate :: "params \<Rightarrow> world \<Rightarrow> world option" where
  "iterate c w0 =
     (if iterations c < 2 ^ 64 - 1 then do {
        w \<leftarrow> for_step 0 (Suc (iterations c)) 1 (iteration c) w0;
        Some (w\<lparr>trace := trace w @ [(Timer_stop, ranks w)]\<rparr>) }
      else None)"

text \<open>
  The program from the allocation to line 405, on inputs that have passed the tests of
  lines 187-210. The flag of the local transpose and of the initialisation is \<open>tiling\<close>,
  the one that the targets compute, for whatever value \<open>garbage_int\<close> the conversion of
  line 239 leaves.
\<close>

definition run :: "params \<Rightarrow> (nat \<Rightarrow> nat \<Rightarrow> nat \<Rightarrow> real) \<Rightarrow> world option" where
  "run c junk = do { w0 \<leftarrow> start c junk; iterate c w0 }"

text \<open>
  The state after the first \<open>m\<close> passes through the loop body. The run is the case
  \<open>m = iterations + 1\<close>, followed by the stop of the timer.
\<close>

definition after_passes :: "params \<Rightarrow> (nat \<Rightarrow> nat \<Rightarrow> nat \<Rightarrow> real) \<Rightarrow> nat \<Rightarrow> world option" where
  "after_passes c junk m = do { w0 \<leftarrow> start c junk; for_step 0 m 1 (iteration c) w0 }"

subsection \<open>Arithmetic on doubles\<close>

text \<open>
  The sum, difference, product and quotient of two doubles are the roundings of the
  exact ones: \<open>rnd\<close> is the rounding of the platform, a parameter. \<open>rounding\<close> is what the
  statements use of the rounding to nearest of IEEE 754: it is monotone, and it leaves
  the natural numbers up to \<open>2 ^ 53\<close>, which are doubles, as they are. A quotient by zero
  is an infinity, or a NaN when the dividend is zero too; the signs of infinities and
  zeros are not kept.
\<close>

definition rounding :: "(real \<Rightarrow> real) \<Rightarrow> bool" where
  "rounding rnd \<longleftrightarrow>
     (\<forall>x y. x \<le> y \<longrightarrow> rnd x \<le> rnd y) \<and> (\<forall>n\<le>2 ^ 53. rnd (real n) = real n)"

fun fp_div :: "(real \<Rightarrow> real) \<Rightarrow> fp \<Rightarrow> fp \<Rightarrow> fp" where
  "fp_div rnd (Finite x) (Finite y) =
     (if y = 0 then (if x = 0 then NaN else Infinity) else Finite (rnd (x / y)))"
| "fp_div rnd (Finite x) Infinity = Finite 0"
| "fp_div rnd Infinity (Finite y) = Infinity"
| "fp_div rnd Infinity Infinity = NaN"
| "fp_div rnd NaN y = NaN"
| "fp_div rnd x NaN = NaN"

subsection \<open>Verification (lines 409-419)\<close>

text \<open>
  \<open>abserr = 0.0\<close> and the loop of lines 411-414,
  \<open>for (j=0;j<Block_order;j++) for (i=0;i<order; i++)
  abserr += ABS(B(i,j) - (double)(order*i + j+colstart))\<close> with \<open>istart = 0\<close>, under
  \<open>#pragma omp parallel for private (i)\<close>. The pragma has no reduction clause: \<open>abserr\<close>
  is one variable shared by the threads of the team, and \<open>abserr += d\<close> is a load of
  \<open>abserr\<close>, a rounded addition and a store. The addends of iteration \<open>j\<close> are the rounded
  differences of column \<open>j\<close> of \<open>B\<close>.
\<close>

definition addends :: "(real \<Rightarrow> real) \<Rightarrow> params \<Rightarrow> nat \<Rightarrow> arr \<Rightarrow> nat \<Rightarrow> real list option" where
  "addends rnd c my_ID b j =
     those (map (\<lambda>i. map_option (\<lambda>x. \<bar>rnd (x - real (order c * i + j + colstart c my_ID))\<bar>)
                        (load b (colblock_ix 0 (order c) i j)))
              [0..<order c])"

text \<open>
  The team: the shared \<open>abserr\<close>; for each thread the addends it has still to add; and
  for each thread the value of \<open>abserr\<close> that it has loaded and not yet stored back, if
  it is between the load and the store of a \<open>+=\<close>. A step of thread \<open>t\<close> is the load or
  the store of its current \<open>+=\<close>; a thread that has finished takes no step. An execution
  of the loop is an interleaving of the steps of the threads, given by the list of the
  threads in the order in which they step.
\<close>

record team =
  shared :: real
  todo :: "real list list"
  loaded :: "real option list"

definition thread_step :: "(real \<Rightarrow> real) \<Rightarrow> nat \<Rightarrow> team \<Rightarrow> team option" where
  "thread_step rnd t s =
     (if t < length (todo s) then
        (case todo s ! t of
           [] \<Rightarrow> None
         | d # ds \<Rightarrow>
             (case loaded s ! t of
                None \<Rightarrow> Some (s\<lparr>loaded := (loaded s)[t := Some (shared s)]\<rparr>)
              | Some v \<Rightarrow>
                  Some (s\<lparr>shared := rnd (v + d), todo := (todo s)[t := ds],
                          loaded := (loaded s)[t := None]\<rparr>)))
      else None)"

fun interleave :: "(real \<Rightarrow> real) \<Rightarrow> nat list \<Rightarrow> team \<Rightarrow> team option" where
  "interleave rnd [] s = Some s"
| "interleave rnd (t # ts) s =
     (case thread_step rnd t s of None \<Rightarrow> None | Some s' \<Rightarrow> interleave rnd ts s')"

text \<open>
  The team has \<open>nthread_input\<close> threads (\<open>omp_set_num_threads\<close>, line 223). OpenMP leaves
  to the implementation which thread runs which iteration: \<open>owner j\<close> is the thread of
  iteration \<open>j\<close>, and a thread runs its iterations in increasing order. The loop returns
  the value of \<open>abserr\<close> when every thread has finished; a list of steps that is not a
  whole execution gives \<open>None\<close>.
\<close>

definition abserr ::
  "(real \<Rightarrow> real) \<Rightarrow> params \<Rightarrow> nat \<Rightarrow> arr \<Rightarrow> (nat \<Rightarrow> nat) \<Rightarrow> nat list \<Rightarrow> real option" where
  "abserr rnd c my_ID b owner sched =
     (let n = nat (sint (nthread_input c)) in
      if list_all (\<lambda>j. owner j < n) [0..<Block_order c] then do {
        cols \<leftarrow> those (map (addends rnd c my_ID b) [0..<Block_order c]);
        s \<leftarrow> interleave rnd sched
               \<lparr>shared = 0,
                todo = map (\<lambda>t. concat (map (\<lambda>j. cols ! j)
                                  (filter (\<lambda>j. owner j = t) [0..<Block_order c]))) [0..<n],
                loaded = replicate n None\<rparr>;
        if list_all (\<lambda>w. w = []) (todo s) then Some (shared s) else None }
      else None)"

text \<open>
  \<open>MPI_Reduce\<close> with \<open>MPI_SUM\<close> (line 416) adds the contributions of the ranks, in the
  order of the ranks here, and the root tests \<open>abserr_tot < epsilon\<close>. \<open>owner r\<close> and
  \<open>sched r\<close> are the assignment and the interleaving on rank \<open>r\<close>.
\<close>

definition reduce_sum :: "(real \<Rightarrow> real) \<Rightarrow> real list \<Rightarrow> real" where
  "reduce_sum rnd xs = (case xs of [] \<Rightarrow> 0 | x # ys \<Rightarrow> fold (\<lambda>y acc. rnd (acc + y)) ys x)"

definition abserr_tot ::
  "(real \<Rightarrow> real) \<Rightarrow> params \<Rightarrow> peer list \<Rightarrow> (nat \<Rightarrow> nat \<Rightarrow> nat) \<Rightarrow> (nat \<Rightarrow> nat list) \<Rightarrow> real option" where
  "abserr_tot rnd c ps owner sched = do {
     errs \<leftarrow> all_ranks (\<lambda>r p. abserr rnd c r (B_p p) (owner r) (sched r)) ps;
     Some (reduce_sum rnd errs) }"

definition epsilon :: real where
  "epsilon = 1 / 10 ^ 8"

definition validates ::
  "(real \<Rightarrow> real) \<Rightarrow> params \<Rightarrow> peer list \<Rightarrow> (nat \<Rightarrow> nat \<Rightarrow> nat) \<Rightarrow> (nat \<Rightarrow> nat list) \<Rightarrow> bool option" where
  "validates rnd c ps owner sched = do {
     e \<leftarrow> abserr_tot rnd c ps owner sched; Some (e < epsilon) }"

subsection \<open>Timing report (lines 265, 405-407 and 421-422)\<close>

text \<open>
  \<open>bytes = 2UL * sizeof(double) * order * order\<close> is a \<open>size_t\<close> product. \<open>t0 r\<close> and
  \<open>t1 r\<close> are the readings of \<open>wtime()\<close> of rank \<open>r\<close> at \<open>Timer_start\<close> and at
  \<open>Timer_stop\<close>; line 405 takes their difference and the reduction of line 406, with
  \<open>MPI_MAX\<close>, the maximum over the ranks. \<open>avgtime = trans_time/(double)iterations\<close>, and
  the rate is printed in MB/s, as \<open>1.0E-06*bytes/avgtime\<close>.
\<close>

definition bytes :: "params \<Rightarrow> nat" where
  "bytes c = (2 * 8 * order c * order c) mod 2 ^ 64"

definition local_trans_time :: "(real \<Rightarrow> real) \<Rightarrow> (nat \<Rightarrow> real) \<Rightarrow> (nat \<Rightarrow> real) \<Rightarrow> nat \<Rightarrow> real" where
  "local_trans_time rnd t0 t1 r = rnd (t1 r - t0 r)"

definition trans_time :: "(real \<Rightarrow> real) \<Rightarrow> params \<Rightarrow> (nat \<Rightarrow> real) \<Rightarrow> (nat \<Rightarrow> real) \<Rightarrow> real" where
  "trans_time rnd c t0 t1 =
     fold max (map (local_trans_time rnd t0 t1) [1..<Num_procs c]) (local_trans_time rnd t0 t1 0)"

definition avgtime :: "(real \<Rightarrow> real) \<Rightarrow> params \<Rightarrow> (nat \<Rightarrow> real) \<Rightarrow> (nat \<Rightarrow> real) \<Rightarrow> fp" where
  "avgtime rnd c t0 t1 =
     fp_div rnd (Finite (trans_time rnd c t0 t1)) (Finite (rnd (real (iterations c))))"

definition rate_MBs :: "(real \<Rightarrow> real) \<Rightarrow> params \<Rightarrow> (nat \<Rightarrow> real) \<Rightarrow> (nat \<Rightarrow> real) \<Rightarrow> fp" where
  "rate_MBs rnd c t0 t1 =
     fp_div rnd (Finite (rnd (rnd (1 / 10 ^ 6) * rnd (real (bytes c))))) (avgtime rnd c t0 t1)"

subsection \<open>Configurations\<close>

text \<open>
  Two ranks on a matrix of order 4, one timed iteration and the default tile order 32,
  which exceeds the order, so that the transpose is not tiled; and one rank on a matrix
  of order 3 with tiles of order 2.
\<close>

definition c_spec :: params where
  "c_spec = \<lparr>order = 4, Num_procs = 2, Tile_order = 32, nthread_input = 1, iterations = 1,
             COLLAPSE = True, garbage_int = 0\<rparr>"

definition c_single :: params where
  "c_single = \<lparr>order = 3, Num_procs = 1, Tile_order = 2, nthread_input = 1, iterations = 1,
               COLLAPSE = True, garbage_int = 0\<rparr>"

text \<open>
  One rank with two threads on a matrix of order 2, and a state of that rank whose \<open>B\<close>
  is the transpose but for \<open>B(0,0)\<close>, which holds 1 where the transpose has 0. The
  cells of \<open>B_race\<close> are \<open>B(0,0)\<close>, \<open>B(1,0)\<close>, \<open>B(0,1)\<close>, \<open>B(1,1)\<close>.
\<close>

definition c_race :: params where
  "c_race = \<lparr>order = 2, Num_procs = 1, Tile_order = 32, nthread_input = 2, iterations = 1,
              COLLAPSE = True, garbage_int = 0\<rparr>"

definition B_race :: arr where
  "B_race = map (\<lambda>x. (x, 2)) [1, 2, 1, 3]"

definition p_race :: peer where
  "p_race = \<lparr>A_p = [], B_p = B_race, Work_in_p = [], Work_out_p = []\<rparr>"

section \<open>Notions of the statements and proofs\<close>

text \<open>
  What the proofs about a run use of an input that is accepted and in range.
\<close>

definition valid :: "params \<Rightarrow> bool" where
  "valid c \<longleftrightarrow>
     1 \<le> Num_procs c \<and> Num_procs c < 2 ^ 31 \<and> order c mod Num_procs c = 0 \<and>
     order c * order c \<le> 2 ^ 53 \<and>
     iterations c < 2 ^ 64 - 1 \<and>
     (1 < Num_procs c \<longrightarrow> Block_order c * Block_order c < 2 ^ 31)"

text \<open>
  The number of tiles along one side of a block, \<open>ceil(Block_order / Tile_order)\<close>, as an
  integer.
\<close>

definition tiles :: "params \<Rightarrow> int" where
  "tiles c = \<lceil>real (Block_order c) / real (Tile_order c)\<rceil>"

text \<open>The indices that \<open>for (j = i; j < n; j += t)\<close> visits.\<close>

definition steps :: "nat \<Rightarrow> nat \<Rightarrow> nat \<Rightarrow> nat set" where
  "steps i n t = {j. i \<le> j \<and> j < n \<and> t dvd (j - i)}"

text \<open>
  A family of state changes indexed by sets of loop indices: running disjoint sets one
  after the other is running their union.
\<close>

definition family :: "'w set \<Rightarrow> ('s \<Rightarrow> bool) \<Rightarrow> ('w set \<Rightarrow> 's \<Rightarrow> 's) \<Rightarrow> bool" where
  "family D I F \<longleftrightarrow>
     (\<forall>S1 S2 s. S1 \<subseteq> D \<and> S2 \<subseteq> D \<and> S1 \<inter> S2 = {} \<and> I s \<longrightarrow> F S2 (F S1 s) = F (S1 \<union> S2) s) \<and>
     (\<forall>s. I s \<longrightarrow> F {} s = s) \<and>
     (\<forall>S s. I s \<longrightarrow> I (F S s))"

text \<open>
  The array after one store of \<open>v k\<close> to every cell \<open>k\<close> of \<open>W\<close>: the value changes and
  the ghost counter goes up by one.
\<close>

definition stored :: "nat set \<Rightarrow> (nat \<Rightarrow> real) \<Rightarrow> arr \<Rightarrow> arr" where
  "stored W v b = map (\<lambda>k. if k \<in> W then (v k, Suc (snd (b ! k))) else b ! k) [0..<length b]"

text \<open>
  What the arrays of rank \<open>r\<close> hold. \<open>A_init\<close> is \<open>A_p\<close> after the initialisation: cell
  \<open>k = i + order*j\<close> holds \<open>order*(j+colstart) + i\<close> and was stored once. \<open>B_expected\<close> is
  the transposed value of cell \<open>k\<close>, \<open>order*i + (j+colstart)\<close>, and \<open>B_after c r m\<close> is
  \<open>B_p\<close> after \<open>m\<close> passes through the iteration loop: the sentinel before the first pass,
  the transposed values after it, each cell stored \<open>m + 1\<close> times. \<open>packed c r s\<close> is the
  content of \<open>Work_out_p\<close> of rank \<open>r\<close> when it holds the block for rank \<open>s\<close>.
\<close>

definition A_init :: "params \<Rightarrow> nat \<Rightarrow> arr" where
  "A_init c r =
     map (\<lambda>k. (real (order c * (k div order c + colstart c r) + k mod order c), 1))
       [0..<Colblock_size c]"

definition B_expected :: "params \<Rightarrow> nat \<Rightarrow> nat \<Rightarrow> real" where
  "B_expected c r k = real (order c * (k mod order c) + (k div order c + colstart c r))"

definition B_after :: "params \<Rightarrow> nat \<Rightarrow> nat \<Rightarrow> arr" where
  "B_after c r m =
     map (\<lambda>k. (if m = 0 then - 1 else B_expected c r k, Suc m)) [0..<Colblock_size c]"

definition packed :: "params \<Rightarrow> nat \<Rightarrow> nat \<Rightarrow> nat \<Rightarrow> real" where
  "packed c r s k =
     real (order c * (k mod Block_order c + colstart c r) + (k div Block_order c + s * Block_order c))"

text \<open>
  The cells of \<open>B\<close> in the rows \<open>[q*Block_order, (q+1)*Block_order)\<close>, as the image of the
  index macro and as a condition on the row \<open>k mod order\<close> of a cell; and the cells stored
  by the self-transpose and the scatters of the phases before \<open>ph\<close>.
\<close>

definition row_block :: "params \<Rightarrow> nat \<Rightarrow> nat set" where
  "row_block c q =
     (\<lambda>(j, i). colblock_ix (q * Block_order c) (order c) i j)
       ` ({..<Block_order c} \<times> {..<Block_order c})"

definition in_rows :: "params \<Rightarrow> nat \<Rightarrow> nat \<Rightarrow> bool" where
  "in_rows c lo k \<longleftrightarrow> lo \<le> k mod order c \<and> k mod order c < lo + Block_order c"

definition rows_done :: "params \<Rightarrow> nat \<Rightarrow> nat \<Rightarrow> nat set" where
  "rows_done c r ph =
     row_block c r \<union> (\<Union>q\<in>{1..<ph}. row_block c (recv_from r q (Num_procs c)))"

text \<open>
  The invariants: of the phase loop of one iteration that started with the arrays \<open>B0\<close>,
  and of the ranks after \<open>m\<close> passes, alone and in a world. \<open>wlen\<close> is the
  length of each workspace buffer.
\<close>

definition wlen :: "params \<Rightarrow> nat" where
  "wlen c = (if Num_procs c > 1 then Block_size c else 0)"

definition phase_inv :: "params \<Rightarrow> (nat \<Rightarrow> arr) \<Rightarrow> nat \<Rightarrow> peer list \<Rightarrow> bool" where
  "phase_inv c B0 ph ps \<longleftrightarrow>
     length ps = Num_procs c \<and>
     (\<forall>r<Num_procs c.
        A_p (ps ! r) = A_init c r \<and>
        B_p (ps ! r) = stored (rows_done c r ph) (B_expected c r) (B0 r) \<and>
        length (Work_in_p (ps ! r)) = wlen c \<and>
        length (Work_out_p (ps ! r)) = wlen c)"

definition ranks_inv :: "params \<Rightarrow> nat \<Rightarrow> peer list \<Rightarrow> bool" where
  "ranks_inv c m ps \<longleftrightarrow>
     length ps = Num_procs c \<and>
     (\<forall>r<Num_procs c.
        A_p (ps ! r) = A_init c r \<and>
        B_p (ps ! r) = B_after c r m \<and>
        length (Work_in_p (ps ! r)) = wlen c \<and>
        length (Work_out_p (ps ! r)) = wlen c)"

text \<open>
  A team in which only zeros are left to add to an \<open>abserr\<close> that is zero.
\<close>

definition calm :: "team \<Rightarrow> bool" where
  "calm s \<longleftrightarrow>
     shared s = 0 \<and> length (loaded s) = length (todo s) \<and>
     (\<forall>w\<in>set (todo s). \<forall>d\<in>set w. d = 0) \<and>
     (\<forall>v\<in>set (loaded s). v = None \<or> v = Some 0)"

definition world_inv :: "params \<Rightarrow> nat \<Rightarrow> world \<Rightarrow> bool" where
  "world_inv c iter w \<longleftrightarrow> ranks_inv c iter (ranks w)"

section \<open>Proofs\<close>

subsection \<open>Counted loops\<close>

lemma steps_done: "\<not> i < n \<Longrightarrow> steps i n t = {}"
  by (auto simp: steps_def)

lemma steps_next:
  assumes "i < n" "0 < t"
  shows "steps i n t = insert i (steps (i + t) n t)"
proof (intro set_eqI iffI)
  fix j assume "j \<in> steps i n t"
  then have j: "i \<le> j" "j < n" "t dvd (j - i)" by (auto simp: steps_def)
  show "j \<in> insert i (steps (i + t) n t)"
  proof (cases "j = i")
    case False
    then have "0 < j - i" using j by simp
    then have "t \<le> j - i" using j(3) by (simp add: dvd_imp_le)
    moreover have "t dvd (j - (i + t))" using j(3) dvd_diff_nat [of t "j - i" t] by simp
    ultimately have "i + t \<le> j" "t dvd (j - (i + t))" using j(1) by arith+
    then show ?thesis using j by (simp add: steps_def)
  qed simp
next
  fix j assume "j \<in> insert i (steps (i + t) n t)"
  then consider "j = i" | "i + t \<le> j" "j < n" "t dvd (j - (i + t))"
    by (auto simp: steps_def)
  then show "j \<in> steps i n t"
  proof cases
    case 1 then show ?thesis using assms by (simp add: steps_def)
  next
    case 2
    have "j - i = (j - (i + t)) + t" using 2 by simp
    then have "t dvd (j - i)" using 2(3) by (metis dvd_add_triv_right_iff)
    then show ?thesis using 2 by (simp add: steps_def)
  qed
qed

lemma steps_unit: "steps i n (Suc 0) = {i..<n}"
  by (auto simp: steps_def)

lemma for_step_family:
  assumes "family D I F" and "0 < t" and "I s"
    and "\<And>j s. j \<in> steps i n t \<Longrightarrow> I s \<Longrightarrow> body j s = Some (F (W j) s)"
    and "\<And>j. j \<in> steps i n t \<Longrightarrow> W j \<subseteq> D"
    and "\<And>j k. j \<in> steps i n t \<Longrightarrow> k \<in> steps i n t \<Longrightarrow> j \<noteq> k \<Longrightarrow> W j \<inter> W k = {}"
  shows "for_step i n t body s = Some (F (\<Union>j\<in>steps i n t. W j) s)"
  using assms
proof (induction i n t body s rule: for_step.induct)
  case (1 i n t body s)
  show ?case
  proof (cases "i < n")
    case False
    then show ?thesis using 1(2,4)
      by (simp add: for_step.simps [of i] steps_done family_def)
  next
    case True
    have st: "steps i n t = insert i (steps (i + t) n t)"
      using True 1(3) by (rule steps_next)
    have b: "body i s = Some (F (W i) s)" using 1(5) [of i s] 1(4) st by simp
    have I': "I (F (W i) s)" using 1(2,4) by (simp add: family_def)
    have ih: "for_step (i + t) n t body (F (W i) s) = Some (F (\<Union>j\<in>steps (i + t) n t. W j) (F (W i) s))"
    proof (rule 1(1) [OF True _ b 1(2) 1(3) I'])
      show "t \<noteq> 0" using 1(3) by simp
    next
      fix j s assume "j \<in> steps (i + t) n t" "I s"
      then show "body j s = Some (F (W j) s)" using 1(5) st by simp
    next
      fix j assume "j \<in> steps (i + t) n t"
      then show "W j \<subseteq> D" using 1(6) st by simp
    next
      fix j k assume "j \<in> steps (i + t) n t" "k \<in> steps (i + t) n t" "j \<noteq> k"
      then show "W j \<inter> W k = {}" using 1(7) st by simp
    qed
    have ni: "i \<notin> steps (i + t) n t" using 1(3) by (simp add: steps_def)
    have d: "W i \<inter> (\<Union>j\<in>steps (i + t) n t. W j) = {}"
    proof -
      have "\<And>j. j \<in> steps (i + t) n t \<Longrightarrow> W i \<inter> W j = {}"
        using 1(7) [of i] st ni by auto
      then show ?thesis by blast
    qed
    have sub: "W i \<subseteq> D" "(\<Union>j\<in>steps (i + t) n t. W j) \<subseteq> D"
      using 1(6) st by auto
    have "F (\<Union>j\<in>steps (i + t) n t. W j) (F (W i) s) = F (W i \<union> (\<Union>j\<in>steps (i + t) n t. W j)) s"
      using 1(2) sub d 1(4) unfolding family_def by blast
    also have "W i \<union> (\<Union>j\<in>steps (i + t) n t. W j) = (\<Union>j\<in>steps i n t. W j)"
      unfolding st by simp
    finally show ?thesis
      using True 1(3) b ih by (simp add: for_step.simps [of i])
  qed
qed

lemma family_laws:
  assumes "family D I F"
  shows "\<And>S1 S2 s. S1 \<subseteq> D \<Longrightarrow> S2 \<subseteq> D \<Longrightarrow> S1 \<inter> S2 = {} \<Longrightarrow> I s \<Longrightarrow> F S2 (F S1 s) = F (S1 \<union> S2) s"
    and "\<And>s. I s \<Longrightarrow> F {} s = s"
    and "\<And>S s. I s \<Longrightarrow> I (F S s)"
  using assms unfolding family_def by blast+

lemma row_family:
  assumes fam: "family D I F" and s: "I s" and sub: "{i} \<times> {lo..<hi} \<subseteq> D"
    and body: "\<And>j s. lo \<le> j \<Longrightarrow> j < hi \<Longrightarrow> I s \<Longrightarrow> body j s = Some (F {(i, j)} s)"
  shows "for_step lo hi 1 body s = Some (F ({i} \<times> {lo..<hi}) s)"
proof -
  have "for_step lo hi 1 body s = Some (F (\<Union>j\<in>steps lo hi 1. {(i, j)}) s)"
    using fam _ s
  proof (rule for_step_family)
    show "0 < (1::nat)" by simp
  next
    fix j s assume "j \<in> steps lo hi 1" "I s"
    then show "body j s = Some (F {(i, j)} s)" using body by (simp add: steps_unit)
  next
    fix j assume "j \<in> steps lo hi 1"
    then show "{(i, j)} \<subseteq> D" using sub by (auto simp: steps_unit)
  next
    fix j k :: nat assume "j \<noteq> k"
    then show "{(i, j)} \<inter> {(i, k)} = {}" by simp
  qed
  moreover have "(\<Union>j\<in>steps lo hi 1. {(i, j)}) = {i} \<times> {lo..<hi}"
    by (auto simp: steps_unit)
  ultimately show ?thesis by simp
qed

lemma rows_family:
  assumes fam: "family D I F" and s: "I s" and sub: "{lo..<hi} \<times> C \<subseteq> D"
    and body: "\<And>i s. lo \<le> i \<Longrightarrow> i < hi \<Longrightarrow> I s \<Longrightarrow> body i s = Some (F ({i} \<times> C) s)"
  shows "for_step lo hi 1 body s = Some (F ({lo..<hi} \<times> C) s)"
proof -
  have "for_step lo hi 1 body s = Some (F (\<Union>i\<in>steps lo hi 1. {i} \<times> C) s)"
    using fam _ s
  proof (rule for_step_family)
    show "0 < (1::nat)" by simp
  next
    fix i s assume "i \<in> steps lo hi 1" "I s"
    then show "body i s = Some (F ({i} \<times> C) s)" using body by (simp add: steps_unit)
  next
    fix i assume "i \<in> steps lo hi 1"
    then show "{i} \<times> C \<subseteq> D" using sub by (auto simp: steps_unit)
  next
    fix j k :: nat assume "j \<noteq> k"
    then show "{j} \<times> C \<inter> {k} \<times> C = {}" by auto
  qed
  moreover have "(\<Union>i\<in>steps lo hi 1. {i} \<times> C) = {lo..<hi} \<times> C"
    by (auto simp: steps_unit)
  ultimately show ?thesis by simp
qed

lemma flat_nest_family:
  assumes fam: "family ({..<n} \<times> {..<m}) I F" and s: "I s"
    and body: "\<And>i j s. i < n \<Longrightarrow> j < m \<Longrightarrow> I s \<Longrightarrow> body i j s = Some (F {(i, j)} s)"
  shows "flat_nest n m body s = Some (F ({..<n} \<times> {..<m}) s)"
proof -
  have "for_step 0 n 1 (\<lambda>i. for_step 0 m 1 (\<lambda>j. body i j)) s = Some (F ({0..<n} \<times> {0..<m}) s)"
    using fam s
  proof (rule rows_family)
    show "{0..<n} \<times> {0..<m} \<subseteq> {..<n} \<times> {..<m}" by auto
  next
    fix i s assume i: "i < n" and s: "I s"
    show "for_step 0 m 1 (\<lambda>j. body i j) s = Some (F ({i} \<times> {0..<m}) s)"
      using fam s
    proof (rule row_family)
      show "{i} \<times> {0..<m} \<subseteq> {..<n} \<times> {..<m}" using i by auto
    next
      fix j s assume "j < m" "I s"
      then show "body i j s = Some (F {(i, j)} s)" using i body by simp
    qed
  qed
  then show ?thesis by (simp add: flat_nest_def atLeast0LessThan)
qed

lemma steps_multiple: "j \<in> steps 0 m T \<Longrightarrow> T dvd j \<and> j < m"
  by (simp add: steps_def)

lemma tile_cover:
  assumes "0 < T"
  shows "(\<Union>j\<in>steps 0 m T. {j..<min m (j + T)}) = {..<m}"
proof (intro set_eqI iffI)
  fix x assume "x \<in> (\<Union>j\<in>steps 0 m T. {j..<min m (j + T)})"
  then show "x \<in> {..<m}" by auto
next
  fix x assume "x \<in> {..<m}"
  then have x: "x < m" by simp
  let ?j = "x div T * T"
  have le: "?j \<le> x" by simp
  then have "?j < m" using x by (rule le_less_trans)
  moreover have "x < ?j + T" using assms by (metis add.commute dividend_less_div_times)
  ultimately have jm: "?j < m" and xj: "x < ?j + T" by blast+
  have "?j \<in> steps 0 m T" unfolding steps_def using jm by simp
  moreover have "x \<in> {?j..<min m (?j + T)}" using le xj x by simp
  ultimately have "?j \<in> steps 0 m T" "x \<in> {?j..<min m (?j + T)}" by blast+
  then show "x \<in> (\<Union>j\<in>steps 0 m T. {j..<min m (j + T)})" by blast
qed

lemma tile_disjoint:
  assumes "j \<in> steps 0 m T" "k \<in> steps 0 m T" "j \<noteq> k"
  shows "{j..<min m (j + T)} \<inter> {k..<min m (k + T)} = {}"
proof -
  have d: "T dvd j" "T dvd k" using assms steps_multiple by blast+
  have far: "a + T \<le> b" if "T dvd a" "T dvd b" "a < b" for a b :: nat
  proof -
    have "T dvd (b - a)" using that by (simp add: dvd_diff_nat)
    moreover have "0 < b - a" using that by simp
    ultimately have "T \<le> b - a" by (simp add: dvd_imp_le)
    then show ?thesis using that by simp
  qed
  consider "j < k" | "k < j" using assms(3) by arith
  then show ?thesis
  proof cases
    case 1 then have "j + T \<le> k" using d far by simp
    then show ?thesis by auto
  next
    case 2 then have "k + T \<le> j" using d far by simp
    then show ?thesis by auto
  qed
qed

lemma tiled_nest_family:
  assumes fam: "family ({..<n} \<times> {..<m}) I F" and T: "0 < T" and s: "I s"
    and body: "\<And>i j s. i < n \<Longrightarrow> j < m \<Longrightarrow> I s \<Longrightarrow> body i j s = Some (F {(i, j)} s)"
  shows "tiled_nest n m T body s = Some (F ({..<n} \<times> {..<m}) s)"
proof -
  let ?D = "{..<n} \<times> {..<m}"
  let ?R = "\<lambda>i. {i..<min n (i + T)}" and ?C = "\<lambda>j. {j..<min m (j + T)}"
  have tile: "for_step i (min n (i + T)) 1 (\<lambda>it.
         for_step j (min m (j + T)) 1 (\<lambda>jt. body it jt)) s = Some (F (?R i \<times> ?C j) s)"
    if "I s" for i j s
    using fam that
  proof (rule rows_family)
    show "?R i \<times> ?C j \<subseteq> ?D" by auto
  next
    fix it s assume it: "it < min n (i + T)" and s: "I s"
    show "for_step j (min m (j + T)) 1 (\<lambda>jt. body it jt) s = Some (F ({it} \<times> ?C j) s)"
      using fam s
    proof (rule row_family)
      show "{it} \<times> ?C j \<subseteq> ?D" using it by auto
    next
      fix jt s assume "jt < min m (j + T)" "I s"
      then show "body it jt s = Some (F {(it, jt)} s)" using it body by simp
    qed
  qed
  have band: "for_step 0 m T (\<lambda>j. for_step i (min n (i + T)) 1 (\<lambda>it.
         for_step j (min m (j + T)) 1 (\<lambda>jt. body it jt))) s = Some (F (?R i \<times> {..<m}) s)"
    if "I s" for i s
  proof -
    have "for_step 0 m T (\<lambda>j. for_step i (min n (i + T)) 1 (\<lambda>it.
         for_step j (min m (j + T)) 1 (\<lambda>jt. body it jt))) s
        = Some (F (\<Union>j\<in>steps 0 m T. ?R i \<times> ?C j) s)"
      using fam T that
    proof (rule for_step_family)
      fix j s assume "I s"
      then show "for_step i (min n (i + T)) 1 (\<lambda>it.
         for_step j (min m (j + T)) 1 (\<lambda>jt. body it jt)) s = Some (F (?R i \<times> ?C j) s)"
        by (rule tile)
    next
      fix j show "?R i \<times> ?C j \<subseteq> ?D" by auto
    next
      fix j k assume "j \<in> steps 0 m T" "k \<in> steps 0 m T" "j \<noteq> k"
      then have "?C j \<inter> ?C k = {}" by (rule tile_disjoint)
      then show "?R i \<times> ?C j \<inter> ?R i \<times> ?C k = {}" by blast
    qed
    moreover have "(\<Union>j\<in>steps 0 m T. ?R i \<times> ?C j) = ?R i \<times> (\<Union>j\<in>steps 0 m T. ?C j)"
      by blast
    ultimately show ?thesis by (simp only: tile_cover [OF T])
  qed
  have "for_step 0 n T (\<lambda>i. for_step 0 m T (\<lambda>j. for_step i (min n (i + T)) 1 (\<lambda>it.
         for_step j (min m (j + T)) 1 (\<lambda>jt. body it jt)))) s
        = Some (F (\<Union>i\<in>steps 0 n T. ?R i \<times> {..<m}) s)"
    using fam T s
  proof (rule for_step_family)
    fix i s assume "I s"
    then show "for_step 0 m T (\<lambda>j. for_step i (min n (i + T)) 1 (\<lambda>it.
         for_step j (min m (j + T)) 1 (\<lambda>jt. body it jt))) s = Some (F (?R i \<times> {..<m}) s)"
      by (rule band)
  next
    fix i show "?R i \<times> {..<m} \<subseteq> ?D" by auto
  next
    fix j k assume "j \<in> steps 0 n T" "k \<in> steps 0 n T" "j \<noteq> k"
    then have "?R j \<inter> ?R k = {}" by (rule tile_disjoint)
    then show "?R j \<times> {..<m} \<inter> ?R k \<times> {..<m} = {}" by blast
  qed
  moreover have "(\<Union>i\<in>steps 0 n T. ?R i \<times> {..<m}) = (\<Union>i\<in>steps 0 n T. ?R i) \<times> {..<m}"
    by blast
  ultimately show ?thesis by (simp only: tiled_nest_def tile_cover [OF T])
qed

subsection \<open>Arrays and the local transpose\<close>

lemma length_stored [simp]: "length (stored W v b) = length b"
  by (simp add: stored_def)

lemma nth_stored:
  "k < length b \<Longrightarrow> stored W v b ! k = (if k \<in> W then (v k, Suc (snd (b ! k))) else b ! k)"
  by (simp add: stored_def)

lemma stored_empty [simp]: "stored {} v b = b"
  by (simp add: stored_def map_nth)

lemma stored_union:
  "W1 \<inter> W2 = {} \<Longrightarrow> stored W2 v (stored W1 v b) = stored (W1 \<union> W2) v b"
  by (rule nth_equalityI) (auto simp: nth_stored)

lemma stored_cong:
  "(\<And>k. k \<in> W \<Longrightarrow> k < length b \<Longrightarrow> v k = v' k) \<Longrightarrow> stored W v b = stored W v' b"
  by (rule nth_equalityI) (auto simp: nth_stored)

lemma stored_all:
  "length b = n \<Longrightarrow> stored {..<n} v b = map (\<lambda>k. (v k, Suc (snd (b ! k)))) [0..<n]"
  by (rule nth_equalityI) (auto simp: nth_stored)

lemma store_stored:
  "k < length b \<Longrightarrow> v k = x \<Longrightarrow> store b k x = Some (stored {k} v b)"
  by (auto simp: store_def intro!: nth_equalityI simp: nth_stored nth_list_update)

lemma copy_cell_stored:
  assumes "s < length a" "d < length b" "v d = fst (a ! s)"
  shows "copy_cell a s d b = Some (stored {d} v b)"
  using assms store_stored [of d b v "fst (a ! s)"] by (simp add: copy_cell_def load_def)

lemma family_stored:
  assumes "inj_on g D"
  shows "family D (\<lambda>b. length b = n) (\<lambda>S. stored (g ` S) v)"
  unfolding family_def
proof (intro conjI allI impI)
  fix S1 S2 :: "'a set" and s :: arr
  assume a: "S1 \<subseteq> D \<and> S2 \<subseteq> D \<and> S1 \<inter> S2 = {} \<and> length s = n"
  then have "g ` S1 \<inter> g ` S2 = {}"
    using assms inj_on_image_Int [of g D S1 S2] by auto
  then show "stored (g ` S2) v (stored (g ` S1) v s) = stored (g ` (S1 \<union> S2)) v s"
    by (simp add: stored_union image_Un)
qed simp_all

text \<open>
  Both strategies of the local transpose store, at each destination index of the block and
  once, the value \<open>v\<close> that the source holds for it.
\<close>

lemma transpose_both:
  assumes inj: "inj_on (\<lambda>(i, j). dest j i) ({..<Bo} \<times> {..<Bo})"
    and src: "\<And>i j. i < Bo \<Longrightarrow> j < Bo \<Longrightarrow> colblock_ix istart ord i j < length a"
    and dst: "\<And>i j. i < Bo \<Longrightarrow> j < Bo \<Longrightarrow> dest j i < length b"
    and v: "\<And>i j. i < Bo \<Longrightarrow> j < Bo \<Longrightarrow> v (dest j i) = fst (a ! colblock_ix istart ord i j)"
  shows "transpose_flat Bo ord istart dest a b
           = Some (stored ((\<lambda>(i, j). dest j i) ` ({..<Bo} \<times> {..<Bo})) v b)"
    and "0 < T \<Longrightarrow> transpose_tiled Bo T ord istart dest a b
           = Some (stored ((\<lambda>(i, j). dest j i) ` ({..<Bo} \<times> {..<Bo})) v b)"
proof -
  let ?g = "\<lambda>(i, j). dest j i"
  let ?F = "\<lambda>S. stored (?g ` S) v"
  have fam: "family ({..<Bo} \<times> {..<Bo}) (\<lambda>x. length x = length b) ?F"
    using inj by (rule family_stored)
  have body: "copy_cell a (colblock_ix istart ord i j) (dest j i) s = Some (?F {(i, j)} s)"
    if "i < Bo" "j < Bo" "length s = length b" for i j s
  proof -
    have "copy_cell a (colblock_ix istart ord i j) (dest j i) s = Some (stored {dest j i} v s)"
      using that src dst v by (intro copy_cell_stored) simp_all
    then show ?thesis by simp
  qed
  show "transpose_flat Bo ord istart dest a b = Some (?F ({..<Bo} \<times> {..<Bo}) b)"
    unfolding transpose_flat_def
    by (rule flat_nest_family [OF fam _ body]) simp_all
  show "transpose_tiled Bo T ord istart dest a b = Some (?F ({..<Bo} \<times> {..<Bo}) b)" if "0 < T"
    unfolding transpose_tiled_def
    by (rule tiled_nest_family [OF fam that _ body]) simp_all
qed

lemma split_index:
  assumes "a < n" "a' < n" "a + n * b = a' + n * b'"
  shows "a = a' \<and> b = (b'::nat)"
proof -
  have "(a + n * b) mod n = (a' + n * b') mod n" "(a + n * b) div n = (a' + n * b') div n"
    using assms(3) by simp_all
  then show ?thesis using assms(1,2) by simp
qed

lemma inj_colblock:
  assumes "istart + n \<le> ord"
  shows "inj_on (\<lambda>(i, j). colblock_ix istart ord j i) ({..<m} \<times> {..<n})"
proof (rule inj_onI)
  fix x y assume a: "x \<in> {..<m} \<times> {..<n}" "y \<in> {..<m} \<times> {..<n}"
    and e: "(case x of (i, j) \<Rightarrow> colblock_ix istart ord j i) = (case y of (i, j) \<Rightarrow> colblock_ix istart ord j i)"
  obtain i j i' j' where xy: "x = (i, j)" "y = (i', j')" by (cases x, cases y) blast
  have "j + istart < ord" "j' + istart < ord" using a assms xy by auto
  moreover have "(j + istart) + ord * i = (j' + istart) + ord * i'"
    using e xy by (simp add: colblock_ix_def)
  ultimately have "j + istart = j' + istart \<and> i = i'" by (rule split_index)
  then show "x = y" using xy by simp
qed

lemma inj_work: "inj_on (\<lambda>(i, j). work_ix n j i) ({..<m} \<times> {..<n})"
  using inj_colblock [of 0 n n m] by (simp add: colblock_ix_def work_ix_def)

lemma colblock_bound:
  assumes "i + istart < ord" "j < n"
  shows "colblock_ix istart ord i j < ord * n"
proof -
  have "(i + istart) + ord * j < ord + ord * j" using assms by simp
  also have "\<dots> = ord * Suc j" by simp
  also have "\<dots> \<le> ord * n" using assms(2) by (intro mult_le_mono2) simp
  finally show ?thesis by (simp add: colblock_ix_def)
qed

lemma work_bound: "i < n \<Longrightarrow> j < m \<Longrightarrow> work_ix n i j < n * m"
  using colblock_bound [of i 0 n j m] by (simp add: colblock_ix_def work_ix_def)

lemma transpose_tiled_flat:
  assumes inj: "inj_on (\<lambda>(i, j). dest j i) ({..<Bo} \<times> {..<Bo})"
    and src: "\<And>i j. i < Bo \<Longrightarrow> j < Bo \<Longrightarrow> colblock_ix istart ord i j < length a"
    and dst: "\<And>i j. i < Bo \<Longrightarrow> j < Bo \<Longrightarrow> dest j i < length b"
    and T: "0 < T"
  shows "transpose_tiled Bo T ord istart dest a b = transpose_flat Bo ord istart dest a b
       \<and> (\<exists>b'. transpose_flat Bo ord istart dest a b = Some b' \<and> length b' = length b \<and>
             (\<forall>i<Bo. \<forall>j<Bo. load b' (dest j i) = load a (colblock_ix istart ord i j)))"
proof -
  let ?D = "{..<Bo} \<times> {..<Bo}"
  let ?g = "\<lambda>(i, j). dest j i"
  define v where
    "v k = fst (a ! (case the_inv_into ?D ?g k of (i, j) \<Rightarrow> colblock_ix istart ord i j))" for k
  have v: "v (dest j i) = fst (a ! colblock_ix istart ord i j)" if "i < Bo" "j < Bo" for i j
  proof -
    have "the_inv_into ?D ?g (?g (i, j)) = (i, j)"
      using inj that by (intro the_inv_into_f_f) simp_all
    then show ?thesis by (simp add: v_def)
  qed
  have flat: "transpose_flat Bo ord istart dest a b = Some (stored (?g ` ?D) v b)"
    by (rule transpose_both(1) [of dest Bo istart ord a b v, OF inj src dst v])
  have tiled: "transpose_tiled Bo T ord istart dest a b = Some (stored (?g ` ?D) v b)"
    by (rule transpose_both(2) [of dest Bo istart ord a b v T, OF inj src dst v T])
  have "load (stored (?g ` ?D) v b) (dest j i) = load a (colblock_ix istart ord i j)"
    if "i < Bo" "j < Bo" for i j
  proof -
    have "dest j i \<in> ?g ` ?D" using that by force
    then show ?thesis using that src dst v by (simp add: load_def nth_stored)
  qed
  then show ?thesis using flat tiled by simp
qed

subsection \<open>The tiling decision\<close>

lemma sint_int32: "- (2 ^ 31) \<le> z \<Longrightarrow> z < 2 ^ 31 \<Longrightarrow> sint (word_of_int z :: 32 word) = z"
  by (simp add: sint_sbintrunc' signed_take_bit_int_eq_self)

lemma to_int_in_range:
  "0 \<le> z \<Longrightarrow> z < 2 ^ 31 \<Longrightarrow> to_int g (Finite (of_int z)) = word_of_int z"
  by (simp add: to_int_def)

lemma tiles_le: 
  assumes "0 < T" shows "\<lceil>real B / real T\<rceil> \<le> int B" "0 \<le> \<lceil>real B / real T\<rceil>"
proof -
  have "real B / real T \<le> real B" using assms
    by (simp add: divide_le_eq mult_le_cancel_left1)
  then show "\<lceil>real B / real T\<rceil> \<le> int B"
    by (simp add: ceiling_le_iff)
  show "0 \<le> \<lceil>real B / real T\<rceil>" 
    by (smt (verit) ceiling_mono ceiling_zero divide_nonneg_nonneg of_nat_0_le_iff)
qed

lemma Block_order_le: "Block_order c \<le> order c"
  by (simp add: Block_order_def)

lemma concurrency_tiles:
  assumes "0 < Tile_order c" "order c < 2 ^ 31"
  shows "concurrency c = (if COLLAPSE c then word_of_int (tiles c) * word_of_int (tiles c) else word_of_int (tiles c))"
proof -
  have "tiles c \<le> int (Block_order c)" "0 \<le> tiles c"
    using tiles_le [OF assms(1)] by (simp_all add: tiles_def)
  moreover have "int (Block_order c) < 2 ^ 31" using Block_order_le [of c] assms(2) by simp
  ultimately have "to_int (garbage_int c) (Finite (of_int (tiles c))) = word_of_int (tiles c)"
    by (intro to_int_in_range) simp_all
  then show ?thesis using assms(1)
    by (simp add: concurrency_def fdiv_def tiles_def Let_def)
qed

lemma tiling_tile_zero: "Tile_order c = 0 \<Longrightarrow> \<not> tiling c"
  by (simp add: tiling_def)

lemma tiling_in_range:
  assumes "order c < 2 ^ 31" and "COLLAPSE c \<Longrightarrow> tiles c \<le> 46340"
  shows "tiling c \<longleftrightarrow>
           0 < Tile_order c \<and> Tile_order c < order c \<and>
           sint (nthread_input c) \<le> (if COLLAPSE c then tiles c * tiles c else tiles c)"
proof (cases "0 < Tile_order c")
  case False
  then show ?thesis by (simp add: tiling_def)
next
  case True
  have b: "tiles c \<le> int (Block_order c)" "0 \<le> tiles c"
    using tiles_le [OF True] by (simp_all add: tiles_def)
  have lt: "int (Block_order c) < 2 ^ 31" using Block_order_le [of c] assms(1) by simp
  show ?thesis
  proof (cases "COLLAPSE c")
    case False
    have "sint (word_of_int (tiles c) :: 32 word) = tiles c"
      using b lt by (intro sint_int32) simp_all
    then show ?thesis using True False assms(1)
      by (auto simp: tiling_def concurrency_tiles Let_def)
  next
    case c: True
    have t: "tiles c \<le> 46340" using assms(2) c by simp
    define x where "x = tiles c * tiles c"
    have "x \<le> 46340 * 46340" unfolding x_def using t b(2) by (intro mult_mono) simp_all
    moreover have "0 \<le> x" unfolding x_def by simp
    ultimately have "- (2 ^ 31) \<le> x" "x < 2 ^ 31" by simp_all
    then have "sint (word_of_int x :: 32 word) = x"
      by (rule sint_int32)
    then have "sint (word_of_int (tiles c) * word_of_int (tiles c) :: 32 word) = tiles c * tiles c"
      by (simp add: x_def)
    then show ?thesis using True c assms(1)
      by (auto simp: tiling_def concurrency_tiles Let_def)
  qed
qed

lemma tiling_garbage:
  assumes "order c < 2 ^ 31"
  shows "tiling (c\<lparr>garbage_int := g\<rparr>) = tiling c"
proof (cases "0 < Tile_order c")
  case False
  then show ?thesis by (simp add: tiling_def)
next
  case True
  have "concurrency (c\<lparr>garbage_int := g\<rparr>) = concurrency c"
    using True assms by (simp add: concurrency_tiles tiles_def Block_order_def)
  then show ?thesis by (simp add: tiling_def)
qed

text \<open>
  Claim C4, at an input where it fails. In the build with \<open>COLLAPSE\<close>, one rank, order
  46341, tile order 1 and one thread: there are 46341 tiles along a side, and the claim
  enables tiling, since \<open>0 < 1 < 46341\<close> and \<open>46341 * 46341\<close> is at least 1. The program
  squares the estimate in an \<open>int\<close> (line 241); the product exceeds \<open>INT_MAX\<close>, wraps to
  \<open>-2147479015\<close>, compares below the thread count, and line 243 clears the flag.
  (Where the square fits an \<open>int\<close>, the flag is what the claim says: \<open>tiling_in_range\<close>.)
\<close>

theorem tiling_square_overflow:
  "\<not> tiling \<lparr>order = 46341, Num_procs = 1, Tile_order = 1, nthread_input = 1, iterations = 1,
             COLLAPSE = True, garbage_int = g\<rparr>
   \<and> sint (concurrency \<lparr>order = 46341, Num_procs = 1, Tile_order = 1, nthread_input = 1,
             iterations = 1, COLLAPSE = True, garbage_int = g\<rparr>) = - 2147479015
   \<and> tiles \<lparr>order = 46341, Num_procs = 1, Tile_order = 1, nthread_input = 1, iterations = 1,
             COLLAPSE = True, garbage_int = g\<rparr> = 46341
   \<and> sint (1 :: 32 word) \<le> 46341 * 46341"
  by (simp add: tiling_def concurrency_def tiles_def Block_order_def fdiv_def to_int_def)

lemma int_of_double_to_int: "int_of_double x = Some k \<Longrightarrow> to_int g x = k"
  by (cases x) (auto simp: int_of_double_def to_int_def Let_def split: if_splits)

lemma concurrency_std_agrees: "concurrency_std c = Some k \<Longrightarrow> concurrency c = k"
  by (auto simp: concurrency_std_def concurrency_def int_times_def Let_def
      dest!: int_of_double_to_int [where g = "garbage_int c"] split: bind_splits if_splits)

lemma tiling_std_agrees: "tiling_std c = Some t \<Longrightarrow> tiling c = t"
  by (auto simp: tiling_std_def tiling_def Let_def dest!: concurrency_std_agrees
      split: bind_splits if_splits)

lemma int_of_double_in_range:
  "0 \<le> z \<Longrightarrow> z < 2 ^ 31 \<Longrightarrow> int_of_double (Finite (of_int z)) = Some (word_of_int z)"
  by (simp add: int_of_double_def)

lemma tiling_std_in_range:
  assumes "0 < Tile_order c" "order c < 2 ^ 31" "COLLAPSE c \<Longrightarrow> tiles c \<le> 46340"
  shows "tiling_std c = Some (tiling c)"
proof -
  have b: "tiles c \<le> int (Block_order c)" "0 \<le> tiles c"
    using tiles_le [OF assms(1)] by (simp_all add: tiles_def)
  have lt: "int (Block_order c) < 2 ^ 31" using Block_order_le [of c] assms(2) by simp
  have "int_of_double (Finite (of_int (tiles c))) = Some (word_of_int (tiles c))"
    using b lt by (intro int_of_double_in_range) simp_all
  then have k: "int_of_double (fceil (fdiv (Block_order c) (Tile_order c)))
                  = Some (word_of_int (tiles c))"
    using assms(1) by (simp add: fdiv_def tiles_def)
  have s: "sint (word_of_int (tiles c) :: 32 word) = tiles c"
    using b lt by (intro sint_int32) simp_all
  have "\<exists>k. concurrency_std c = Some k"
  proof (cases "COLLAPSE c")
    case False
    then show ?thesis by (simp add: concurrency_std_def k)
  next
    case True
    define x where "x = tiles c * tiles c"
    have "x \<le> 46340 * 46340" unfolding x_def using assms(3) [OF True] b(2) by (intro mult_mono) simp_all
    moreover have "0 \<le> x" unfolding x_def by simp
    ultimately have "- (2 ^ 31) \<le> x" "x < 2 ^ 31" by simp_all
    then show ?thesis using True by (simp add: concurrency_std_def k int_times_def s x_def)
  qed
  then obtain t where "tiling_std c = Some t" by (auto simp: tiling_std_def Let_def)
  then show ?thesis using tiling_std_agrees by blast
qed


text \<open>
  Claim C8, at the inputs where it fails. With \<open>Tile_order = 0\<close> line 239 is evaluated,
  whatever the flag: the quotient is a division by zero, an infinity (a NaN for an
  empty block), and so is its ceiling. It has no \<open>int\<close> value: its conversion to \<open>int\<close>,
  and with it the estimate and the decision of line 243, is undefined in C, for every
  input with tile order 0 and for the input of two ranks, order 4 and tile order 0 in
  particular. (The flag that the targets compute there is cleared; for a positive tile
  order the decision is defined wherever the square fits: \<open>tiling_std_in_range\<close>.)
\<close>

theorem tiling_tile_zero_undefined:
  "fceil (fdiv (Block_order c) 0) = (if Block_order c = 0 then NaN else Infinity)
   \<and> int_of_double (fceil (fdiv (Block_order c) 0)) = None
   \<and> concurrency_std (c\<lparr>Tile_order := 0\<rparr>) = None
   \<and> tiling_std (c\<lparr>Tile_order := 0\<rparr>) = None
   \<and> tiling_std (c_spec\<lparr>Tile_order := 0\<rparr>) = None
   \<and> \<not> tiling (c\<lparr>Tile_order := 0\<rparr>)"
  by (simp add: fdiv_def int_of_double_def concurrency_std_def tiling_std_def tiling_def
      Block_order_def c_spec_def)

subsection \<open>Ring partners\<close>

lemma unat_size_t: "n < 2 ^ 64 \<Longrightarrow> unat (word_of_nat n :: 64 word) = n"
  by (simp add: unat_of_nat take_bit_nat_eq_self)

lemma recv_from_nat:
  assumes "my_ID < P" "phase < P" "P < 2 ^ 31"
  shows "recv_from my_ID phase P = (my_ID + phase) mod P"
proof -
  have "(word_of_nat my_ID :: 64 word) + word_of_nat phase = word_of_nat (my_ID + phase)"
    by simp
  moreover have "my_ID + phase < 2 ^ 64" "P < 2 ^ 64" using assms by simp_all
  ultimately show ?thesis
    by (simp only: recv_from_def unat_mod_distrib unat_size_t)
qed

lemma send_to_nat:
  assumes "my_ID < P" "phase < P" "P < 2 ^ 31"
  shows "send_to my_ID phase P = (my_ID + P - phase) mod P"
proof -
  have "(word_of_nat my_ID :: 64 word) - word_of_nat phase + word_of_nat P
          = word_of_nat (my_ID + P) - word_of_nat phase"
    by simp
  also have "\<dots> = word_of_nat (my_ID + P - phase)"
    using assms by (simp add: of_nat_diff)
  finally have e: "(word_of_nat my_ID :: 64 word) - word_of_nat phase + word_of_nat P
          = word_of_nat (my_ID + P - phase)" .
  have "my_ID + P - phase < 2 ^ 64" "P < 2 ^ 64" using assms by simp_all
  then show ?thesis
    by (simp only: send_to_def e unat_mod_distrib unat_size_t)
qed

lemma mod_below_twice: "x < 2 * P \<Longrightarrow> x mod P = (if x < P then x else x - (P::nat))"
  by (simp add: le_mod_geq)

lemma ring_plus: "m < P \<Longrightarrow> ph < P \<Longrightarrow> (m + ph) mod P = (if m + ph < P then m + ph else m + ph - (P::nat))"
  by (rule mod_below_twice) simp

lemma ring_minus:
  "m < P \<Longrightarrow> ph < P \<Longrightarrow> (m + P - ph) mod P = (if ph \<le> m then m - ph else m + P - (ph::nat))"
  by (subst mod_below_twice) auto

lemma ring_not_self:
  assumes "m < P" "1 \<le> ph" "ph < P"
  shows "(m + P - ph) mod P \<noteq> (m::nat)" "(m + ph) mod P \<noteq> m"
  using assms by (auto simp: ring_minus ring_plus split: if_splits)

lemma ring_unique:
  assumes "p < P" "q < P" "p \<noteq> q"
  shows "\<exists>!ph. ph \<in> {1..<P} \<and> (p + P - ph) mod P = (q::nat)"
proof (rule ex1I [where a = "(p + P - q) mod P"])
  show "(p + P - q) mod P \<in> {1..<P} \<and> (p + P - (p + P - q) mod P) mod P = q"
    using assms by (auto simp: ring_minus)
next
  fix ph assume h: "ph \<in> {1..<P} \<and> (p + P - ph) mod P = q"
  then have ph: "1 \<le> ph" "ph < P" and e: "(p + P - ph) mod P = q" by auto
  have q: "q = (if ph \<le> p then p - ph else p + P - ph)"
    unfolding e [symmetric] using assms ph by (simp only: ring_minus)
  have "(p + P - q) mod P = (if q \<le> p then p - q else p + P - q)"
    using assms by (simp add: ring_minus)
  with q ph assms show "ph = (p + P - q) mod P"
    by (auto split: if_splits)
qed

lemma ring_inverse:
  assumes "p < P" "q < P" "1 \<le> ph" "ph < P"
  shows "((p + P - ph) mod P = (q::nat)) = ((q + ph) mod P = p)"
  using assms by (auto simp: ring_minus ring_plus split: if_splits)

lemma send_to_int:
  assumes "my_ID < P" "phase < P" "P < 2 ^ 31"
  shows "int (send_to my_ID phase P) = (int my_ID - int phase + int P) mod int P"
proof -
  have e: "int my_ID - int phase + int P = int (my_ID + P - phase)"
    using assms by (simp add: of_nat_diff)
  show ?thesis
    by (simp only: e send_to_nat [OF assms] zmod_int)
qed

text \<open>
  Claim C3. With at least two ranks, in every phase \<open>1 \<le> phase < Num_procs\<close> the partners
  computed at lines 353-354 are \<open>(my_ID + phase) mod Num_procs\<close> and
  \<open>(my_ID - phase + Num_procs) mod Num_procs\<close>, both are ranks other than \<open>my_ID\<close>; every
  ordered pair of distinct ranks is (sender, receiver) in exactly one phase; and \<open>p\<close> sends
  to \<open>q\<close> in a phase (the message tag) exactly when \<open>q\<close> receives from \<open>p\<close> in it.
\<close>

theorem ring_exchange_schedule:
  assumes "2 \<le> P" and "P < 2 ^ 31"
  shows "(\<forall>my_ID<P. \<forall>phase\<in>{1..<P}.
            recv_from my_ID phase P = (my_ID + phase) mod P \<and>
            int (send_to my_ID phase P) = (int my_ID - int phase + int P) mod int P \<and>
            send_to my_ID phase P \<noteq> my_ID \<and> recv_from my_ID phase P \<noteq> my_ID \<and>
            send_to my_ID phase P < P \<and> recv_from my_ID phase P < P)
       \<and> (\<forall>p<P. \<forall>q<P. p \<noteq> q \<longrightarrow> (\<exists>!phase. phase \<in> {1..<P} \<and> send_to p phase P = q))
       \<and> (\<forall>p<P. \<forall>q<P. \<forall>phase\<in>{1..<P}.
            (send_to p phase P = q) = (recv_from q phase P = p))"
proof (intro conjI allI impI ballI)
  fix my_ID phase assume a: "my_ID < P" "phase \<in> {1..<P}"
  then have ph: "1 \<le> phase" "phase < P" by auto
  show "recv_from my_ID phase P = (my_ID + phase) mod P"
    using a ph assms by (simp add: recv_from_nat)
  show "int (send_to my_ID phase P) = (int my_ID - int phase + int P) mod int P"
    using a ph assms by (simp add: send_to_int)
  show "send_to my_ID phase P \<noteq> my_ID"
    using a ph assms ring_not_self(1) [of my_ID P phase] by (simp add: send_to_nat)
  show "recv_from my_ID phase P \<noteq> my_ID"
    using a ph assms ring_not_self(2) [of my_ID P phase] by (simp add: recv_from_nat)
  show "send_to my_ID phase P < P"
    using a ph assms by (simp add: send_to_nat)
  show "recv_from my_ID phase P < P"
    using a ph assms by (simp add: recv_from_nat)
next
  fix p q assume a: "p < P" "q < P" "p \<noteq> q"
  have "\<And>ph. ph \<in> {1..<P} \<Longrightarrow> send_to p ph P = (p + P - ph) mod P"
    using a assms by (simp add: send_to_nat)
  then have "\<And>ph. (ph \<in> {1..<P} \<and> send_to p ph P = q) = (ph \<in> {1..<P} \<and> (p + P - ph) mod P = q)"
    by auto
  then show "\<exists>!phase. phase \<in> {1..<P} \<and> send_to p phase P = q"
    using ring_unique [OF a] by simp
next
  fix p q phase assume a: "p < P" "q < P" "phase \<in> {1..<P}"
  then have ph: "1 \<le> phase" "phase < P" by auto
  show "(send_to p phase P = q) = (recv_from q phase P = p)"
    using a ph assms ring_inverse [of p P q phase] by (simp add: send_to_nat recv_from_nat)
qed

theorem ring_exchange_schedule_witness:
  "send_to 0 1 3 \<noteq> 0 \<and> recv_from 0 1 3 \<noteq> 0 \<and> recv_from 0 1 3 = 1 \<and> send_to 0 1 3 < 3
   \<and> (\<exists>!phase. phase \<in> {1..<3} \<and> send_to 0 phase 3 = 1)
   \<and> ((send_to 0 1 3 = 2) = (recv_from 2 1 3 = 0))"
proof -
  have h: "(2::nat) \<le> 3" "(3::nat) < 2 ^ 31" by simp_all
  note t = ring_exchange_schedule [OF h]
  have one: "(1::nat) \<in> {1..<3}" by simp
  from t have "\<forall>phase\<in>{1..<3}. recv_from 0 phase 3 = (0 + phase) mod 3 \<and>
            int (send_to 0 phase 3) = (int 0 - int phase + int 3) mod int 3 \<and>
            send_to 0 phase 3 \<noteq> 0 \<and> recv_from 0 phase 3 \<noteq> 0 \<and>
            send_to 0 phase 3 < 3 \<and> recv_from 0 phase 3 < 3"
    by simp
  with one have a: "send_to 0 1 3 \<noteq> 0 \<and> recv_from 0 1 3 \<noteq> 0 \<and> recv_from 0 1 3 = 1 \<and> send_to 0 1 3 < 3"
    by auto
  from t have b: "\<exists>!phase. phase \<in> {1..<3} \<and> send_to 0 phase 3 = 1"
    by simp
  from t have "\<forall>q<3. \<forall>phase\<in>{1..<3}. (send_to 0 phase 3 = q) = (recv_from q phase 3 = 0)"
    by simp
  with one have c: "(send_to 0 1 3 = 2) = (recv_from 2 1 3 = 0)"
    by simp
  from a b c show ?thesis by simp
qed

subsection \<open>Layout and initialisation\<close>

lemma valid_order: "valid c \<Longrightarrow> order c = Num_procs c * Block_order c"
  by (auto simp: valid_def Block_order_def)

lemma Block_order_pos: "k < Colblock_size c \<Longrightarrow> 0 < Block_order c"
  by (cases "Block_order c") (simp_all add: Colblock_size_def)

lemma valid_square:
  assumes "valid c"
  shows "order c * Block_order c \<le> 2 ^ 53" "Block_order c * Block_order c \<le> 2 ^ 53"
proof -
  have o: "order c * order c \<le> 2 ^ 53" using assms by (simp add: valid_def)
  have "order c * Block_order c \<le> order c * order c"
    by (intro mult_le_mono2 Block_order_le)
  then show "order c * Block_order c \<le> 2 ^ 53" using o by (rule le_trans)
  have "Block_order c * Block_order c \<le> order c * order c"
    by (intro mult_le_mono Block_order_le)
  then show "Block_order c * Block_order c \<le> 2 ^ 53" using o by (rule le_trans)
qed

lemma valid_sizes:
  assumes "valid c"
  shows "Colblock_size c = order c * Block_order c"
    and "Block_size c = Block_order c * Block_order c"
  using valid_square [OF assms] by (simp_all add: Colblock_size_def Block_size_def)

lemma doubles_in_small: "n \<le> 2 ^ 54 \<Longrightarrow> doubles_in n = n"
  by (simp add: doubles_in_def)

lemma valid_allocate:
  assumes "valid c"
  shows "allocate c junk =
     \<lparr>A_p = malloc (junk 0) (Colblock_size c),
      B_p = malloc (junk 1) (Colblock_size c),
      Work_in_p = (if Num_procs c > 1 then malloc (junk 2) (Block_size c) else []),
      Work_out_p = (if Num_procs c > 1 then malloc (junk 3) (Block_size c) else [])\<rparr>"
proof -
  have "Colblock_size c \<le> 2 ^ 54" "2 * Block_size c \<le> 2 ^ 54"
    using valid_square [OF assms] by (simp_all add: valid_sizes [OF assms])
  then have "doubles_in (Colblock_size c) = Colblock_size c"
    "doubles_in (2 * Block_size c) = 2 * Block_size c"
    by (simp_all only: doubles_in_small)
  then show ?thesis by (simp add: allocate_def)
qed

lemma valid_count:
  assumes "valid c" "1 < Num_procs c"
  shows "MPI_count c = int (Block_size c)"
proof -
  have "Block_order c * Block_order c < 2 ^ 31" using assms by (simp add: valid_def)
  then have "Block_size c < 2 ^ 31" by (simp add: valid_sizes [OF assms(1)])
  then show ?thesis
    unfolding MPI_count_def using sint_int32 [of "int (Block_size c)"] by simp
qed

lemma block_in_order:
  assumes "valid c" "q < Num_procs c"
  shows "q * Block_order c + Block_order c \<le> order c"
proof -
  have "q * Block_order c + Block_order c = Suc q * Block_order c" by simp
  also have "\<dots> \<le> Num_procs c * Block_order c" using assms(2) by (intro mult_le_mono1) simp
  finally show ?thesis using assms(1) by (simp add: valid_order)
qed

lemma tiling_Tile_order: "tiling c \<Longrightarrow> 0 < Tile_order c"
  by (auto simp: tiling_def Let_def split: if_splits)

lemma colblock_cover:
  "(\<lambda>(j, i). colblock_ix 0 ord i j) ` ({..<m} \<times> {..<ord}) = {..<ord * m}"
proof (intro set_eqI iffI)
  fix k assume "k \<in> (\<lambda>(j, i). colblock_ix 0 ord i j) ` ({..<m} \<times> {..<ord})"
  then obtain i j where "k = colblock_ix 0 ord i j" "i < ord" "j < m" by auto
  then show "k \<in> {..<ord * m}" using colblock_bound [of i 0 ord j m] by simp
next
  fix k assume "k \<in> {..<ord * m}"
  then have k: "k < ord * m" by simp
  then have "0 < ord" by (cases ord) simp_all
  then have "k mod ord < ord" "k div ord < m" using k by (simp_all add: less_mult_imp_div_less mult.commute)
  moreover have "k = colblock_ix 0 ord (k mod ord) (k div ord)" by (simp add: colblock_ix_def)
  ultimately show "k \<in> (\<lambda>(j, i). colblock_ix 0 ord i j) ` ({..<m} \<times> {..<ord})"
    by (intro image_eqI [where x = "(k div ord, k mod ord)"]) simp_all
qed

lemma work_cover: "(\<lambda>(i, j). work_ix n j i) ` ({..<m} \<times> {..<n}) = {..<n * m}"
  using colblock_cover [of n m] by (simp add: colblock_ix_def work_ix_def)

lemma family_pair:
  assumes "family D I1 F1" "family D I2 F2"
  shows "family D (\<lambda>(a, b). I1 a \<and> I2 b) (\<lambda>S (a, b). (F1 S a, F2 S b))"
  using assms unfolding family_def by (simp add: split_def)

lemma malloc_length [simp]: "length (malloc junk n) = n"
  by (simp add: malloc_def)

lemma initialise_ok:
  assumes "valid c"
  shows "initialise c r (allocate c junk)
           = Some ((allocate c junk)\<lparr>A_p := A_init c r, B_p := B_after c r 0\<rparr>)"
proof -
  let ?n = "Colblock_size c" and ?Bo = "Block_order c" and ?ord = "order c"
  let ?D = "{..<?Bo} \<times> {..<?ord}"
  let ?g = "\<lambda>(j, i). colblock_ix 0 ?ord i j"
  let ?va = "\<lambda>k. real (?ord * (k div ?ord + colstart c r) + k mod ?ord)"
  let ?vb = "\<lambda>k::nat. - 1 :: real"
  let ?F = "\<lambda>S (a, b). (stored (?g ` S) ?va a, stored (?g ` S) ?vb b)"
  let ?I = "\<lambda>(a, b). length (a::arr) = ?n \<and> length (b::arr) = ?n"
  let ?a0 = "malloc (junk 0) ?n" and ?b0 = "malloc (junk 1) ?n"
  have inj: "inj_on ?g ?D" using inj_colblock [of 0 ?ord ?ord ?Bo] by simp
  have fam: "family ?D ?I ?F"
    by (rule family_pair) (rule family_stored [OF inj])+
  have body: "init_cell c r i j s = Some (?F {(j, i)} s)" if "j < ?Bo" "i < ?ord" "?I s" for i j s
  proof -
    obtain a b where s: "s = (a, b)" by (cases s)
    have k: "colblock_ix 0 ?ord i j < ?n"
      using that colblock_bound [of i 0 ?ord j ?Bo] by (simp add: valid_sizes [OF assms])
    have va: "?va (colblock_ix 0 ?ord i j) = real (?ord * (j + colstart c r) + i)"
      using that by (simp add: colblock_ix_def)
    have "store a (colblock_ix 0 ?ord i j) (real (?ord * (j + colstart c r) + i))
            = Some (stored {colblock_ix 0 ?ord i j} ?va a)"
      using k that s va by (intro store_stored) simp_all
    moreover have "store b (colblock_ix 0 ?ord i j) (- 1)
            = Some (stored {colblock_ix 0 ?ord i j} ?vb b)"
      using k that s by (intro store_stored) simp_all
    ultimately show ?thesis by (simp add: init_cell_def s)
  qed
  have I0: "?I (?a0, ?b0)" by simp
  have flat: "flat_nest ?Bo ?ord (\<lambda>j i. init_cell c r i j) (?a0, ?b0) = Some (?F ?D (?a0, ?b0))"
    by (rule flat_nest_family [OF fam I0]) (rule body)
  have tiled: "tiled_nest ?Bo ?ord (Tile_order c) (\<lambda>jt it. init_cell c r it jt) (?a0, ?b0)
                 = Some (?F ?D (?a0, ?b0))" if "tiling c"
    by (rule tiled_nest_family [OF fam tiling_Tile_order [OF that] I0]) (rule body)
  have img: "?g ` ?D = {..<?n}" by (simp add: colblock_cover valid_sizes [OF assms])
  have a: "stored {..<?n} ?va ?a0 = A_init c r"
    by (simp add: stored_all A_init_def malloc_def)
  have b: "stored {..<?n} ?vb ?b0 = B_after c r 0"
    by (simp add: stored_all B_after_def malloc_def)
  have "?F ?D (?a0, ?b0) = (A_init c r, B_after c r 0)"
    by (simp only: img a b prod.case)
  then show ?thesis using flat tiled
    by (simp add: initialise_def valid_allocate [OF assms])
qed

subsection \<open>The local steps of one rank\<close>

lemma nth_A_init:
  "k < Colblock_size c \<Longrightarrow>
     A_init c r ! k = (real (order c * (k div order c + colstart c r) + k mod order c), 1)"
  by (simp add: A_init_def)

lemma length_A_init [simp]: "length (A_init c r) = Colblock_size c"
  by (simp add: A_init_def)

lemma length_B_after [simp]: "length (B_after c r m) = Colblock_size c"
  by (simp add: B_after_def)

lemma colblock_div_mod:
  assumes "i + istart < ord"
  shows "colblock_ix istart ord i j mod ord = i + istart" "colblock_ix istart ord i j div ord = j"
  using assms by (simp_all add: colblock_ix_def)

lemma work_div_mod:
  assumes "i < n"
  shows "work_ix n i j mod n = i" "work_ix n i j div n = j"
  using assms by (simp_all add: work_ix_def)

lemma local_transpose_ok:
  assumes inj: "inj_on (\<lambda>(i, j). dest j i) ({..<Block_order c} \<times> {..<Block_order c})"
    and src: "\<And>i j. i < Block_order c \<Longrightarrow> j < Block_order c \<Longrightarrow>
                colblock_ix istart (order c) i j < length a"
    and dst: "\<And>i j. i < Block_order c \<Longrightarrow> j < Block_order c \<Longrightarrow> dest j i < length b"
    and v: "\<And>i j. i < Block_order c \<Longrightarrow> j < Block_order c \<Longrightarrow>
                v (dest j i) = fst (a ! colblock_ix istart (order c) i j)"
  shows "local_transpose c istart dest a b
           = Some (stored ((\<lambda>(i, j). dest j i) ` ({..<Block_order c} \<times> {..<Block_order c})) v b)"
proof (cases "tiling c")
  case False
  then show ?thesis
    using transpose_both(1) [of dest "Block_order c" istart "order c" a b v, OF inj src dst v]
    by (simp add: local_transpose_def)
next
  case True
  then have T: "0 < Tile_order c" by (rule tiling_Tile_order)
  show ?thesis
    using True transpose_both(2) [of dest "Block_order c" istart "order c" a b v "Tile_order c",
        OF inj src dst v T]
    by (simp add: local_transpose_def)
qed

lemma block_src_bound:
  assumes "valid c" "s < Num_procs c" "i < Block_order c" "j < Block_order c"
  shows "i + s * Block_order c < order c"
    and "colblock_ix (s * Block_order c) (order c) i j < Colblock_size c"
proof -
  show 1: "i + s * Block_order c < order c" using block_in_order [OF assms(1,2)] assms(3) by simp
  show "colblock_ix (s * Block_order c) (order c) i j < Colblock_size c"
    using colblock_bound [OF 1 assms(4)] by (simp add: valid_sizes [OF assms(1)])
qed

lemma self_transpose_ok:
  assumes c: "valid c" and r: "r < Num_procs c"
    and A: "A_p p = A_init c r" and B: "length (B_p p) = Colblock_size c"
  shows "self_transpose c r p
           = Some (p\<lparr>B_p := stored (row_block c r) (B_expected c r) (B_p p)\<rparr>)"
proof -
  let ?Bo = "Block_order c" and ?ord = "order c"
  let ?is = "r * ?Bo"
  have cs: "colstart c r = ?is" by (simp add: colstart_def)
  have inj: "inj_on (\<lambda>(i, j). colblock_ix ?is ?ord j i) ({..<?Bo} \<times> {..<?Bo})"
    using block_in_order [OF c r] by (rule inj_colblock)
  have "local_transpose c ?is (colblock_ix ?is ?ord) (A_p p) (B_p p)
          = Some (stored ((\<lambda>(i, j). colblock_ix ?is ?ord j i) ` ({..<?Bo} \<times> {..<?Bo}))
                    (B_expected c r) (B_p p))"
  proof (rule local_transpose_ok [OF inj])
    fix i j assume ij: "i < ?Bo" "j < ?Bo"
    show "colblock_ix ?is ?ord i j < length (A_p p)"
      using block_src_bound(2) [OF c r ij] A by simp
    show "colblock_ix ?is ?ord j i < length (B_p p)"
      using block_src_bound(2) [OF c r ij(2,1)] B by simp
    have "A_init c r ! colblock_ix ?is ?ord i j
            = (real (?ord * (j + colstart c r) + (i + ?is)), 1)"
      using block_src_bound [OF c r ij]
      by (simp add: nth_A_init colblock_div_mod)
    moreover have "B_expected c r (colblock_ix ?is ?ord j i)
            = real (?ord * (j + ?is) + (i + colstart c r))"
      using block_src_bound(1) [OF c r ij(2,1)]
      by (simp only: B_expected_def colblock_div_mod)
    ultimately show "B_expected c r (colblock_ix ?is ?ord j i)
            = fst (A_p p ! colblock_ix ?is ?ord i j)"
      using A cs by simp
  qed
  moreover have "(\<lambda>(i, j). colblock_ix ?is ?ord j i) = (\<lambda>(j, i). colblock_ix ?is ?ord i j)"
    by auto
  ultimately show ?thesis
    by (simp add: self_transpose_def cs row_block_def)
qed

lemma pack_ok:
  assumes c: "valid c" and r: "r < Num_procs c" and s: "send_to r phase (Num_procs c) = s"
    "s < Num_procs c"
    and A: "A_p p = A_init c r" and W: "length (Work_out_p p) = Block_size c"
  shows "pack c phase r p
           = Some (p\<lparr>Work_out_p := stored {..<Block_size c} (packed c r s) (Work_out_p p)\<rparr>)"
proof -
  let ?Bo = "Block_order c" and ?ord = "order c"
  let ?is = "s * ?Bo"
  have "local_transpose c ?is (work_ix ?Bo) (A_p p) (Work_out_p p)
          = Some (stored ((\<lambda>(i, j). work_ix ?Bo j i) ` ({..<?Bo} \<times> {..<?Bo}))
                    (packed c r s) (Work_out_p p))"
  proof (rule local_transpose_ok [OF inj_work])
    fix i j assume ij: "i < ?Bo" "j < ?Bo"
    show "colblock_ix ?is ?ord i j < length (A_p p)"
      using block_src_bound(2) [OF c s(2) ij] A by simp
    show "work_ix ?Bo j i < length (Work_out_p p)"
      using work_bound [OF ij(2,1)] W by (simp add: valid_sizes [OF c])
    have "A_init c r ! colblock_ix ?is ?ord i j
            = (real (?ord * (j + colstart c r) + (i + ?is)), 1)"
      using block_src_bound [OF c s(2) ij]
      by (simp add: nth_A_init colblock_div_mod)
    moreover have "packed c r s (work_ix ?Bo j i) = real (?ord * (j + colstart c r) + (i + ?is))"
      using ij by (simp only: packed_def work_div_mod)
    ultimately show "packed c r s (work_ix ?Bo j i) = fst (A_p p ! colblock_ix ?is ?ord i j)"
      using A by simp
  qed
  then show ?thesis
    by (simp add: pack_def s(1) work_cover valid_sizes [OF c])
qed

lemma scatter_ok:
  assumes c: "valid c" and r: "r < Num_procs c" and q: "recv_from r phase (Num_procs c) = q"
    "q < Num_procs c"
    and W: "length (Work_in_p p) = Block_size c"
      "\<And>k. k < Block_size c \<Longrightarrow> fst (Work_in_p p ! k) = packed c q r k"
    and B: "length (B_p p) = Colblock_size c"
  shows "scatter c phase r p
           = Some (p\<lparr>B_p := stored (row_block c q) (B_expected c r) (B_p p)\<rparr>)"
proof -
  let ?Bo = "Block_order c" and ?ord = "order c"
  let ?is = "q * ?Bo"
  let ?D = "{..<?Bo} \<times> {..<?Bo}"
  let ?g = "\<lambda>(j, i). colblock_ix ?is ?ord i j"
  let ?F = "\<lambda>S. stored (?g ` S) (B_expected c r)"
  have inj: "inj_on ?g ?D"
    using block_in_order [OF c q(2)] by (rule inj_colblock)
  have fam: "family ?D (\<lambda>x. length x = length (B_p p)) ?F"
    using inj by (rule family_stored)
  have body: "copy_cell (Work_in_p p) (work_ix ?Bo i j) (colblock_ix ?is ?ord i j) s
                = Some (?F {(j, i)} s)"
    if ji: "j < ?Bo" "i < ?Bo" and len: "length s = length (B_p p)" for j i s
  proof -
    have wb: "work_ix ?Bo i j < Block_size c"
      using work_bound [OF ji(2,1)] by (simp add: valid_sizes [OF c])
    have "B_expected c r (colblock_ix ?is ?ord i j) = real (?ord * (i + ?is) + (j + colstart c r))"
      using block_src_bound(1) [OF c q(2) ji(2,1)]
      by (simp only: B_expected_def colblock_div_mod)
    moreover have "packed c q r (work_ix ?Bo i j) = real (?ord * (i + colstart c q) + (j + r * ?Bo))"
      using ji by (simp only: packed_def work_div_mod)
    ultimately have "B_expected c r (colblock_ix ?is ?ord i j) = fst (Work_in_p p ! work_ix ?Bo i j)"
      using W(2) [OF wb] by (simp add: colstart_def mult.commute)
    then have "copy_cell (Work_in_p p) (work_ix ?Bo i j) (colblock_ix ?is ?ord i j) s
                 = Some (stored {colblock_ix ?is ?ord i j} (B_expected c r) s)"
      using wb W(1) block_src_bound(2) [OF c q(2) ji(2,1)] len B
      by (intro copy_cell_stored) simp_all
    then show ?thesis by simp
  qed
  have "flat_nest ?Bo ?Bo (\<lambda>j i. copy_cell (Work_in_p p) (work_ix ?Bo i j)
           (colblock_ix ?is ?ord i j)) (B_p p) = Some (?F ?D (B_p p))"
    by (rule flat_nest_family [OF fam _ body]) simp_all
  then show ?thesis
    by (simp add: scatter_def q(1) row_block_def)
qed

subsection \<open>The exchange\<close>

lemma those_Some: "those (map (\<lambda>x. Some (g x)) xs) = Some (map g xs)"
  by (induction xs) simp_all

lemma all_ranks_Some:
  assumes "\<And>r. r < length ps \<Longrightarrow> f r (ps ! r) = Some (g r)"
  shows "all_ranks f ps = Some (map g [0..<length ps])"
proof -
  have h: "map (\<lambda>r. f r (ps ! r)) [0..<length ps] = map (\<lambda>r. Some (g r)) [0..<length ps]"
    using assms by simp
  show ?thesis by (simp only: all_ranks_def h those_Some)
qed

lemma receive_ok:
  assumes "length msg \<le> length w"
  shows "for_step 0 (length msg) 1 (\<lambda>k w. store w k (msg ! k)) w
           = Some (stored {..<length msg} (\<lambda>k. msg ! k) w)"
proof -
  let ?v = "\<lambda>k. msg ! k"
  have fam: "family {..<length msg} (\<lambda>x. length x = length w) (\<lambda>S. stored (id ` S) ?v)"
    by (rule family_stored) simp
  have "for_step 0 (length msg) 1 (\<lambda>k w. store w k (msg ! k)) w
          = Some (stored (id ` (\<Union>k\<in>steps 0 (length msg) 1. {k})) ?v w)"
    using fam
  proof (rule for_step_family)
    fix k and s :: arr assume "k \<in> steps 0 (length msg) 1" "length s = length w"
    then have "k < length s" using assms by (simp add: steps_def)
    then have "store s k (msg ! k) = Some (stored {k} ?v s)" by (intro store_stored) simp_all
    then show "store s k (msg ! k) = Some (stored (id ` {k}) ?v s)" by simp
  qed (auto simp: steps_def)
  moreover have "(\<Union>k\<in>steps 0 (length msg) 1. {k}) = {..<length msg}"
    by (auto simp: steps_def)
  ultimately show ?thesis by simp
qed

lemma map_of_net:
  assumes "q < n"
  shows "map_of (map (\<lambda>r. ((r, d r, t), pl r)) [0..<n]) (q, d q, t) = Some (pl q)"
proof -
  have "distinct (map fst (map (\<lambda>r. ((r, d r, t), pl r)) [0..<n]))"
    by (simp add: distinct_map comp_def inj_on_def)
  moreover have "((q, d q, t), pl q) \<in> set (map (\<lambda>r. ((r, d r, t), pl r)) [0..<n])"
    using assms by auto
  ultimately show ?thesis by (simp only: map_of_eq_Some_iff)
qed

lemma exchange_ok:
  assumes c: "valid c" and P: "length ps = Num_procs c" "Num_procs c < 2 ^ 31"
    and ph: "1 \<le> phase" "phase < Num_procs c"
    and out: "\<And>r. r < Num_procs c \<Longrightarrow> length (Work_out_p (ps ! r)) = Block_size c"
    and inb: "\<And>r. r < Num_procs c \<Longrightarrow> length (Work_in_p (ps ! r)) = Block_size c"
  shows "exchange c phase ps
           = Some (map (\<lambda>r. (ps ! r)\<lparr>Work_in_p :=
                      stored {..<Block_size c}
                        (\<lambda>k. fst (Work_out_p (ps ! recv_from r phase (Num_procs c)) ! k))
                        (Work_in_p (ps ! r))\<rparr>) [0..<length ps])"
proof -
  let ?P = "Num_procs c"
  have cnt: "MPI_count c = int (Block_size c)"
    using ph by (intro valid_count [OF c]) simp
  let ?pl = "\<lambda>r. map fst (take (Block_size c) (Work_out_p (ps ! r)))"
  let ?net = "map (\<lambda>r. ((r, send_to r phase ?P, phase), ?pl r)) [0..<length ps]"
  have net: "all_ranks (MPI_send c phase) ps = Some ?net"
    by (rule all_ranks_Some) (simp add: MPI_send_def cnt out P(1))
  have recv: "MPI_recv c phase ?net r (ps ! r)
      = Some ((ps ! r)\<lparr>Work_in_p := stored {..<Block_size c}
                 (\<lambda>k. fst (Work_out_p (ps ! recv_from r phase ?P) ! k)) (Work_in_p (ps ! r))\<rparr>)"
    if r: "r < length ps" for r
  proof -
    let ?q = "recv_from r phase ?P"
    have rP: "r < ?P" using r P(1) by simp
    have q: "?q = (r + phase) mod ?P" using rP ph P(2) by (simp add: recv_from_nat)
    then have qP: "?q < ?P" using rP by simp
    have "send_to ?q phase ?P = (?q + ?P - phase) mod ?P"
      using qP ph P(2) by (simp add: send_to_nat)
    also have "\<dots> = r"
      using ring_inverse [of ?q ?P r phase] qP rP ph q by simp
    finally have ret: "send_to ?q phase ?P = r" .
    have "map_of ?net (?q, send_to ?q phase ?P, phase) = Some (?pl ?q)"
      using qP P(1) by (intro map_of_net) simp
    then have look: "map_of ?net (?q, r, phase) = Some (?pl ?q)" by (simp only: ret)
    have len: "length (?pl ?q) = Block_size c" using out [OF qP] by simp
    have "for_step 0 (length (?pl ?q)) 1 (\<lambda>k w. store w k (?pl ?q ! k)) (Work_in_p (ps ! r))
            = Some (stored {..<length (?pl ?q)} (\<lambda>k. ?pl ?q ! k) (Work_in_p (ps ! r)))"
      using len inb [OF rP] by (intro receive_ok) simp
    moreover have "stored {..<Block_size c} (\<lambda>k. ?pl ?q ! k) (Work_in_p (ps ! r))
            = stored {..<Block_size c} (\<lambda>k. fst (Work_out_p (ps ! ?q) ! k)) (Work_in_p (ps ! r))"
      using out [OF qP] by (intro stored_cong) simp
    ultimately show ?thesis
      using look len by (simp add: MPI_recv_def cnt)
  qed
  show ?thesis
    using net all_ranks_Some [of ps "MPI_recv c phase ?net", OF recv]
    by (simp add: exchange_def)
qed

subsection \<open>Row blocks and the phases of one iteration\<close>

lemma for_step_invariant:
  assumes "Inv i s" and "i \<le> n"
    and "\<And>j s. i \<le> j \<Longrightarrow> j < n \<Longrightarrow> Inv j s \<Longrightarrow> \<exists>s'. body j s = Some s' \<and> Inv (Suc j) s'"
  shows "\<exists>s'. for_step i n 1 body s = Some s' \<and> Inv n s'"
  using assms
proof (induction "n - i" arbitrary: i s)
  case 0
  then have "i = n" by simp
  then show ?case using 0(2) by (simp add: for_step.simps [of n])
next
  case (Suc d)
  then have lt: "i < n" by simp
  obtain s1 where s1: "body i s = Some s1" "Inv (Suc i) s1"
    using Suc(5) [of i s] lt Suc(3) by auto
  have "\<exists>s'. for_step (Suc i) n 1 body s1 = Some s' \<and> Inv n s'"
  proof (rule Suc(1))
    show "d = n - Suc i" using Suc(2) by simp
    show "Inv (Suc i) s1" by (rule s1(2))
    show "Suc i \<le> n" using lt by simp
    fix j s assume "Suc i \<le> j" "j < n" "Inv j s"
    then show "\<exists>s'. body j s = Some s' \<and> Inv (Suc j) s'" using Suc(5) [of j s] by simp
  qed
  then show ?case using lt s1(1) by (simp add: for_step.simps [of i])
qed

lemma row_block_iff:
  assumes c: "valid c" and q: "q < Num_procs c"
  shows "k \<in> row_block c q \<longleftrightarrow>
           k < Colblock_size c \<and> (k mod order c) div Block_order c = q"
proof
  let ?Bo = "Block_order c" and ?ord = "order c"
  assume "k \<in> row_block c q"
  then obtain i j where k: "k = colblock_ix (q * ?Bo) ?ord i j" and ij: "i < ?Bo" "j < ?Bo"
    by (auto simp: row_block_def)
  have lt: "i + q * ?Bo < ?ord" by (rule block_src_bound(1) [OF c q ij])
  have "k mod ?ord = i + q * ?Bo" unfolding k using lt by (rule colblock_div_mod)
  moreover have "(i + q * ?Bo) div ?Bo = q" using ij(1) by simp
  ultimately show "k < Colblock_size c \<and> (k mod ?ord) div ?Bo = q"
    using block_src_bound(2) [OF c q ij] k by simp
next
  let ?Bo = "Block_order c" and ?ord = "order c"
  assume a: "k < Colblock_size c \<and> (k mod ?ord) div ?Bo = q"
  have Bo: "0 < ?Bo" using a Block_order_pos [of k c] by simp
  let ?i = "(k mod ?ord) mod ?Bo" and ?j = "k div ?ord"
  have i: "?i < ?Bo" using Bo by simp
  have "k < ?ord * ?Bo" using a by (simp add: valid_sizes [OF c])
  then have j: "?j < ?Bo" by (simp add: less_mult_imp_div_less mult.commute)
  have "k mod ?ord = ?i + q * ?Bo" using a by (metis add.commute mult.commute mult_div_mod_eq)
  then have "k = colblock_ix (q * ?Bo) ?ord ?i ?j"
    by (simp add: colblock_ix_def)
  then show "k \<in> row_block c q"
    unfolding row_block_def using i j by (intro image_eqI [where x = "(?j, ?i)"]) simp_all
qed

lemma row_block_disjoint:
  assumes "valid c" "q < Num_procs c" "q' < Num_procs c" "q \<noteq> q'"
  shows "row_block c q \<inter> row_block c q' = {}"
  using assms by (auto simp: row_block_iff)

lemma recv_from_facts:
  assumes "r < P" "1 \<le> ph" "ph < P" "P < 2 ^ 31"
  shows "recv_from r ph P < P" "recv_from r ph P \<noteq> r"
    "send_to (recv_from r ph P) ph P = r"
    "\<And>ph'. 1 \<le> ph' \<Longrightarrow> ph' < P \<Longrightarrow> ph' \<noteq> ph \<Longrightarrow> recv_from r ph' P \<noteq> recv_from r ph P"
proof -
  have q: "recv_from r ph P = (r + ph) mod P" using assms by (simp add: recv_from_nat)
  then show lt: "recv_from r ph P < P" using assms by simp
  show "recv_from r ph P \<noteq> r" using ring_not_self(2) [of r P ph] assms q by simp
  have "send_to (recv_from r ph P) ph P = (recv_from r ph P + P - ph) mod P"
    using lt assms by (simp add: send_to_nat)
  also have "\<dots> = r" using ring_inverse [of "recv_from r ph P" P r ph] lt assms q by simp
  finally show "send_to (recv_from r ph P) ph P = r" .
  fix ph' assume p: "1 \<le> ph'" "ph' < P" "ph' \<noteq> ph"
  have q': "recv_from r ph' P = (r + ph') mod P" using assms p by (simp add: recv_from_nat)
  have e: "(r + ph) mod P = (if r + ph < P then r + ph else r + ph - P)"
    using assms by (intro ring_plus)
  have e': "(r + ph') mod P = (if r + ph' < P then r + ph' else r + ph' - P)"
    using assms p by (intro ring_plus)
  have "(r + ph') mod P \<noteq> (r + ph) mod P"
    unfolding e e' using p assms by (simp split: if_splits) arith
  then show "recv_from r ph' P \<noteq> recv_from r ph P"
    unfolding q q' .
qed

lemma rows_done_Suc:
  "1 \<le> ph \<Longrightarrow> rows_done c r (Suc ph)
     = rows_done c r ph \<union> row_block c (recv_from r ph (Num_procs c))"
  by (auto simp: rows_done_def less_Suc_eq)

lemma rows_done_disjoint:
  assumes c: "valid c" and r: "r < Num_procs c" and ph: "1 \<le> ph" "ph < Num_procs c"
  shows "rows_done c r ph \<inter> row_block c (recv_from r ph (Num_procs c)) = {}"
proof -
  let ?P = "Num_procs c"
  have P: "?P < 2 ^ 31" using c by (simp add: valid_def)
  note f = recv_from_facts [OF r ph P]
  have "row_block c r \<inter> row_block c (recv_from r ph ?P) = {}"
    using f(1,2) r c by (intro row_block_disjoint) simp_all
  moreover have "row_block c (recv_from r q ?P) \<inter> row_block c (recv_from r ph ?P) = {}"
    if "q \<in> {1..<ph}" for q
  proof -
    have q: "1 \<le> q" "q < ?P" "q \<noteq> ph" using that ph by auto
    have "recv_from r q ?P < ?P" using recv_from_facts(1) [OF r q(1,2) P] .
    then show ?thesis using f(1) f(4) [OF q] c by (intro row_block_disjoint) simp_all
  qed
  ultimately show ?thesis unfolding rows_done_def by blast
qed

lemma rows_done_all:
  assumes c: "valid c" and r: "r < Num_procs c"
  shows "rows_done c r (Num_procs c) = {..<Colblock_size c}"
proof (intro set_eqI iffI)
  let ?P = "Num_procs c"
  have P: "?P < 2 ^ 31" using c by (simp add: valid_def)
  fix k assume "k \<in> rows_done c r ?P"
  then have "k \<in> row_block c r \<or> (\<exists>q\<in>{1..<?P}. k \<in> row_block c (recv_from r q ?P))"
    unfolding rows_done_def by blast
  then show "k \<in> {..<Colblock_size c}"
  proof
    assume "k \<in> row_block c r"
    then show ?thesis using row_block_iff [OF c r, of k] by simp
  next
    assume "\<exists>q\<in>{1..<?P}. k \<in> row_block c (recv_from r q ?P)"
    then obtain q where q: "1 \<le> q" "q < ?P" "k \<in> row_block c (recv_from r q ?P)" by auto
    have "recv_from r q ?P < ?P" by (rule recv_from_facts(1) [OF r q(1,2) P])
    then show ?thesis using row_block_iff [OF c, of "recv_from r q ?P" k] q(3) by simp
  qed
next
  let ?P = "Num_procs c" and ?Bo = "Block_order c"
  have P: "?P < 2 ^ 31" using c by (simp add: valid_def)
  fix k assume "k \<in> {..<Colblock_size c}"
  then have k: "k < Colblock_size c" by simp
  let ?q = "(k mod order c) div ?Bo"
  have Bo: "0 < ?Bo" using k by (rule Block_order_pos)
  have "0 < ?P" using c by (simp add: valid_def)
  then have "0 < ?P * ?Bo" using Bo by simp
  then have "k mod (?P * ?Bo) < ?P * ?Bo" by (rule mod_less_divisor)
  then have "k mod order c < ?P * ?Bo" by (simp only: valid_order [OF c])
  then have qP: "?q < ?P" by (rule less_mult_imp_div_less)
  have kq: "k \<in> row_block c ?q" using row_block_iff [OF c qP, of k] k by simp
  show "k \<in> rows_done c r ?P"
  proof (cases "?q = r")
    case True
    then show ?thesis using kq unfolding rows_done_def by simp
  next
    case False
    have "\<exists>!ph. ph \<in> {1..<?P} \<and> (?q + ?P - ph) mod ?P = r"
      using qP r False by (rule ring_unique)
    then obtain ph where ph: "ph \<in> {1..<?P}" "(?q + ?P - ph) mod ?P = r"
      by (elim ex1E) blast
    then have ph': "1 \<le> ph" "ph < ?P" by simp_all
    have "(r + ph) mod ?P = ?q" using ring_inverse [OF qP r ph'] ph(2) by simp
    moreover have "recv_from r ph ?P = (r + ph) mod ?P" using r ph'(2) P by (rule recv_from_nat)
    ultimately have "recv_from r ph ?P = ?q" by simp
    then have "k \<in> row_block c (recv_from r ph ?P)" using kq by simp
    then show ?thesis using ph(1) unfolding rows_done_def by blast
  qed
qed

subsection \<open>One phase\<close>

lemma nth_upt_map: "r < n \<Longrightarrow> map f [0..<n] ! r = f r"
  by simp

lemma phase_step_ok:
  assumes c: "valid c" and ph: "1 \<le> ph" "ph < Num_procs c"
    and inv: "phase_inv c B0 ph ps"
    and B0: "\<And>r. r < Num_procs c \<Longrightarrow> length (B0 r) = Colblock_size c"
  shows "\<exists>ps'. phase_step c ph ps = Some ps' \<and> phase_inv c B0 (Suc ph) ps'"
proof -
  let ?P = "Num_procs c" and ?n = "Block_size c"
  have P: "?P < 2 ^ 31" using c by (simp add: valid_def)
  have w: "wlen c = ?n" using ph by (simp add: wlen_def)
  have len: "length ps = ?P" using inv by (simp add: phase_inv_def)
  have st: "A_p (ps ! r) = A_init c r"
    "B_p (ps ! r) = stored (rows_done c r ph) (B_expected c r) (B0 r)"
    "length (Work_in_p (ps ! r)) = ?n" "length (Work_out_p (ps ! r)) = ?n"
    if "r < ?P" for r
    using inv that w by (simp_all add: phase_inv_def)
  let ?q = "\<lambda>r. recv_from r ph ?P" and ?s = "\<lambda>r. send_to r ph ?P"
  have sP: "?s r < ?P" if "r < ?P" for r
    using that ph P by (simp add: send_to_nat)
  note rf = recv_from_facts [OF _ ph P]
  \<comment> \<open>the outgoing block\<close>
  let ?p1 = "\<lambda>r. (ps ! r)\<lparr>Work_out_p :=
               stored {..<?n} (packed c r (?s r)) (Work_out_p (ps ! r))\<rparr>"
  let ?ps1 = "map ?p1 [0..<length ps]"
  have s1: "all_ranks (pack c ph) ps = Some ?ps1"
  proof (rule all_ranks_Some)
    fix r assume "r < length ps"
    then have r: "r < ?P" using len by simp
    show "pack c ph r (ps ! r) = Some (?p1 r)"
      by (rule pack_ok [OF c r refl sP [OF r] st(1) [OF r] st(4) [OF r]])
  qed
  have n1: "?ps1 ! r = ?p1 r" if "r < ?P" for r using that len by simp
  \<comment> \<open>the rendezvous\<close>
  let ?p2 = "\<lambda>r. (?ps1 ! r)\<lparr>Work_in_p :=
               stored {..<?n} (\<lambda>k. fst (Work_out_p (?ps1 ! ?q r) ! k)) (Work_in_p (?ps1 ! r))\<rparr>"
  let ?ps2 = "map ?p2 [0..<length ?ps1]"
  have s2: "exchange c ph ?ps1 = Some ?ps2"
  proof (rule exchange_ok [OF c _ P ph])
    show "length ?ps1 = ?P" using len by simp
    fix r assume r: "r < ?P"
    show "length (Work_out_p (?ps1 ! r)) = ?n" using n1 [OF r] st(4) [OF r] by simp
    show "length (Work_in_p (?ps1 ! r)) = ?n" using n1 [OF r] st(3) [OF r] by simp
  qed
  have n2: "?ps2 ! r = ?p2 r" if "r < ?P" for r using that len by simp
  have in2: "fst (Work_in_p (?ps2 ! r) ! k) = packed c (?q r) r k" if r: "r < ?P" and k: "k < ?n" for r k
  proof -
    have q: "?q r < ?P" by (rule rf(1) [OF r])
    have "fst (Work_in_p (?ps2 ! r) ! k) = fst (Work_out_p (?ps1 ! ?q r) ! k)"
      using n2 [OF r] n1 [OF r] st(3) [OF r] k by (simp add: nth_stored)
    also have "\<dots> = packed c (?q r) (?s (?q r)) k"
      using n1 [OF q] st(4) [OF q] k by (simp add: nth_stored)
    also have "?s (?q r) = r" by (rule rf(3) [OF r])
    finally show ?thesis .
  qed
  \<comment> \<open>the scatter\<close>
  let ?p3 = "\<lambda>r. (?ps2 ! r)\<lparr>B_p :=
               stored (row_block c (?q r)) (B_expected c r) (B_p (?ps2 ! r))\<rparr>"
  let ?ps3 = "map ?p3 [0..<length ?ps2]"
  have B2: "B_p (?ps2 ! r) = B_p (ps ! r)" "A_p (?ps2 ! r) = A_p (ps ! r)"
    "length (Work_in_p (?ps2 ! r)) = ?n" "length (Work_out_p (?ps2 ! r)) = ?n"
    if r: "r < ?P" for r
    using n2 [OF r] n1 [OF r] st(3,4) [OF r] by simp_all
  have s3: "all_ranks (scatter c ph) ?ps2 = Some ?ps3"
  proof (rule all_ranks_Some)
    fix r assume "r < length ?ps2"
    then have r: "r < ?P" using len by simp
    show "scatter c ph r (?ps2 ! r) = Some (?p3 r)"
    proof (rule scatter_ok [OF c r refl rf(1) [OF r] B2(3) [OF r]])
      fix k assume "k < ?n"
      then show "fst (Work_in_p (?ps2 ! r) ! k) = packed c (?q r) r k" by (rule in2 [OF r])
    next
      show "length (B_p (?ps2 ! r)) = Colblock_size c"
        using B2(1) [OF r] st(2) [OF r] B0 [OF r] by simp
    qed
  qed
  have n3: "?ps3 ! r = ?p3 r" if "r < ?P" for r using that len by simp
  have "phase_inv c B0 (Suc ph) ?ps3"
    unfolding phase_inv_def
  proof (intro conjI allI impI)
    show "length ?ps3 = ?P" using len by simp
    fix r assume r: "r < ?P"
    show "A_p (?ps3 ! r) = A_init c r"
      using n3 [OF r] B2(2) [OF r] st(1) [OF r] by simp
    have "B_p (?ps3 ! r) = stored (row_block c (?q r)) (B_expected c r)
            (stored (rows_done c r ph) (B_expected c r) (B0 r))"
      using n3 [OF r] B2(1) [OF r] st(2) [OF r] by simp
    also have "\<dots> = stored (rows_done c r ph \<union> row_block c (?q r)) (B_expected c r) (B0 r)"
      using rows_done_disjoint [OF c r ph] by (rule stored_union)
    finally show "B_p (?ps3 ! r) = stored (rows_done c r (Suc ph)) (B_expected c r) (B0 r)"
      using ph(1) by (simp only: rows_done_Suc)
    show "length (Work_in_p (?ps3 ! r)) = wlen c"
      using n3 [OF r] B2(3) [OF r] w by simp
    show "length (Work_out_p (?ps3 ! r)) = wlen c"
      using n3 [OF r] B2(4) [OF r] w by simp
  qed
  moreover have "phase_step c ph ps = Some ?ps3"
    using s1 s2 s3 by (simp add: phase_step_def)
  ultimately show ?thesis by blast
qed

subsection \<open>The iteration loop\<close>

lemma for_step_split:
  assumes "i \<le> m" "m \<le> n"
  shows "for_step i n 1 body s = Option.bind (for_step i m 1 body s) (for_step m n 1 body)"
  using assms
proof (induction "m - i" arbitrary: i s)
  case 0
  then have "i = m" by simp
  then show ?case by (simp add: for_step.simps [of m m])
next
  case (Suc d)
  then have lt: "i < m" "i < n" by simp_all
  show ?case
  proof (cases "body i s")
    case None
    then show ?thesis using lt by (simp add: for_step.simps [of i])
  next
    case (Some s1)
    have "for_step (Suc i) n 1 body s1
            = Option.bind (for_step (Suc i) m 1 body s1) (for_step m n 1 body)"
      using Suc(2,3,4) by (intro Suc(1)) simp_all
    then show ?thesis using lt Some by (simp add: for_step.simps [of i])
  qed
qed

lemma nth_B_after:
  "k < Colblock_size c \<Longrightarrow>
     B_after c r m ! k = (if m = 0 then - 1 else B_expected c r k, Suc m)"
  by (simp add: B_after_def)

lemma transpose_once_ok:
  assumes c: "valid c" and inv: "ranks_inv c m ps"
  shows "\<exists>ps'. transpose_once c ps = Some ps' \<and> ranks_inv c (Suc m) ps'"
proof -
  let ?P = "Num_procs c" and ?B0 = "\<lambda>r. B_after c r m"
  have len: "length ps = ?P" using inv by (simp add: ranks_inv_def)
  have st: "A_p (ps ! r) = A_init c r" "B_p (ps ! r) = B_after c r m"
    "length (Work_in_p (ps ! r)) = wlen c" "length (Work_out_p (ps ! r)) = wlen c"
    if "r < ?P" for r
    using inv that by (simp_all add: ranks_inv_def)
  let ?p1 = "\<lambda>r. (ps ! r)\<lparr>B_p := stored (row_block c r) (B_expected c r) (B_p (ps ! r))\<rparr>"
  let ?ps1 = "map ?p1 [0..<length ps]"
  have s1: "all_ranks (self_transpose c) ps = Some ?ps1"
  proof (rule all_ranks_Some)
    fix r assume "r < length ps"
    then have r: "r < ?P" using len by simp
    show "self_transpose c r (ps ! r) = Some (?p1 r)"
      using st(2) [OF r] by (intro self_transpose_ok [OF c r st(1) [OF r]]) simp
  qed
  have i1: "phase_inv c ?B0 1 ?ps1"
    using len st by (simp add: phase_inv_def rows_done_def)
  have "1 \<le> ?P" using c by (simp add: valid_def)
  with i1 have "\<exists>ps'. for_step 1 ?P 1 (phase_step c) ?ps1 = Some ps' \<and> phase_inv c ?B0 ?P ps'"
  proof (rule for_step_invariant)
    fix ph ps assume "1 \<le> ph" "ph < ?P" "phase_inv c ?B0 ph ps"
    then show "\<exists>ps'. phase_step c ph ps = Some ps' \<and> phase_inv c ?B0 (Suc ph) ps'"
      by (intro phase_step_ok [OF c]) simp_all
  qed
  then obtain ps' where ps': "for_step 1 ?P 1 (phase_step c) ?ps1 = Some ps'"
    "phase_inv c ?B0 ?P ps'" by blast
  have "ranks_inv c (Suc m) ps'"
    unfolding ranks_inv_def
  proof (intro conjI allI impI)
    show "length ps' = ?P" using ps'(2) by (simp add: phase_inv_def)
    fix r assume r: "r < ?P"
    show "A_p (ps' ! r) = A_init c r" "length (Work_in_p (ps' ! r)) = wlen c"
      "length (Work_out_p (ps' ! r)) = wlen c"
      using ps'(2) r by (simp_all add: phase_inv_def)
    have "B_p (ps' ! r) = stored (rows_done c r ?P) (B_expected c r) (B_after c r m)"
      using ps'(2) r by (simp add: phase_inv_def)
    also have "\<dots> = stored {..<Colblock_size c} (B_expected c r) (B_after c r m)"
      by (simp only: rows_done_all [OF c r])
    also have "\<dots> = map (\<lambda>k. (B_expected c r k, Suc (snd (B_after c r m ! k)))) [0..<Colblock_size c]"
      by (rule stored_all) simp
    also have "\<dots> = B_after c r (Suc m)"
      by (simp add: B_after_def)
    finally show "B_p (ps' ! r) = B_after c r (Suc m)" .
  qed
  moreover have "transpose_once c ps = Some ps'"
    using s1 ps'(1) by (simp add: transpose_once_def)
  ultimately show ?thesis by blast
qed

lemma iteration_ok:
  assumes c: "valid c" and inv: "world_inv c iter w"
  shows "\<exists>w'. iteration c iter w = Some w' \<and> world_inv c (Suc iter) w'"
proof -
  obtain ps' where ps': "transpose_once c (ranks w) = Some ps'" "ranks_inv c (Suc iter) ps'"
    using transpose_once_ok [OF c] inv unfolding world_inv_def by blast
  show ?thesis
    using ps' by (cases "iter = 1") (simp_all add: iteration_def world_inv_def Let_def)
qed

lemma start_ok:
  assumes c: "valid c"
  shows "\<exists>w. start c junk = Some w \<and> world_inv c 0 w"
proof -
  let ?P = "Num_procs c"
  let ?ps0 = "map (\<lambda>r. allocate c (junk r)) [0..<?P]"
  let ?p = "\<lambda>r. (allocate c (junk r))\<lparr>A_p := A_init c r, B_p := B_after c r 0\<rparr>"
  have "all_ranks (initialise c) ?ps0 = Some (map ?p [0..<length ?ps0])"
  proof (rule all_ranks_Some)
    fix r assume "r < length ?ps0"
    then show "initialise c r (?ps0 ! r) = Some (?p r)"
      using initialise_ok [OF c, of r "junk r"] by simp
  qed
  then have "start c junk = Some \<lparr>ranks = map ?p [0..<?P], trace = []\<rparr>"
    by (simp add: start_def)
  moreover have "world_inv c 0 \<lparr>ranks = map ?p [0..<?P], trace = []\<rparr>"
    by (simp add: world_inv_def ranks_inv_def valid_allocate [OF c] wlen_def)
  ultimately show ?thesis by blast
qed

lemma after_passes_ok:
  assumes c: "valid c"
  shows "\<exists>w. after_passes c junk m = Some w \<and> world_inv c m w"
proof -
  obtain w0 where w0: "start c junk = Some w0" "world_inv c 0 w0"
    using start_ok [OF c] by blast
  have "\<exists>w. for_step 0 m 1 (iteration c) w0 = Some w \<and> world_inv c m w"
    using w0(2)
  proof (rule for_step_invariant)
    fix j s assume "world_inv c j s"
    then show "\<exists>s'. iteration c j s = Some s' \<and> world_inv c (Suc j) s'"
      by (rule iteration_ok [OF c])
  qed simp
  then show ?thesis using w0(1) by (simp add: after_passes_def)
qed

lemma run_after_passes:
  assumes "iterations c < 2 ^ 64 - 1"
  shows "run c junk = Option.bind (after_passes c junk (Suc (iterations c)))
                  (\<lambda>w. Some (w\<lparr>trace := trace w @ [(Timer_stop, ranks w)]\<rparr>))"
  using assms by (cases "start c junk") (simp_all add: run_def after_passes_def iterate_def)


lemma run_ok:
  assumes c: "valid c"
  shows "\<exists>w. run c junk = Some (w\<lparr>trace := trace w @ [(Timer_stop, ranks w)]\<rparr>) \<and>
             world_inv c (Suc (iterations c)) w"
proof -
  have "iterations c < 2 ^ 64 - 1" using c by (simp add: valid_def)
  then show ?thesis
    using after_passes_ok [OF c, of junk "Suc (iterations c)"]
    by (auto simp: run_after_passes)
qed

subsection \<open>Correctness of the transpose\<close>

lemma validI: "accepted M c \<Longrightarrow> in_range c \<Longrightarrow> valid c"
  by (simp add: accepted_def in_range_def valid_def)


lemma load_A_init:
  assumes "valid c" "i < order c" "j < Block_order c"
  shows "load (A_init c r) (colblock_ix 0 (order c) i j)
           = Some (real (order c * (j + colstart c r) + i))"
proof -
  have "colblock_ix 0 (order c) i j < Colblock_size c"
    using colblock_bound [of i 0 "order c" j "Block_order c"] assms(2,3) by (simp add: valid_sizes [OF assms(1)])
  then show ?thesis
    using assms(2) colblock_div_mod [of i 0 "order c" j]
    by (simp add: load_def nth_A_init)
qed

lemma load_B_after:
  assumes "valid c" "i < order c" "j < Block_order c" "1 \<le> m"
  shows "load (B_after c r m) (colblock_ix 0 (order c) i j)
           = Some (real (order c * i + (j + colstart c r)))"
proof -
  have "colblock_ix 0 (order c) i j < Colblock_size c"
    using colblock_bound [of i 0 "order c" j "Block_order c"] assms(2,3) by (simp add: valid_sizes [OF assms(1)])
  then show ?thesis
    using assms(2,4) colblock_div_mod [of i 0 "order c" j]
    by (simp add: load_def nth_B_after B_expected_def)
qed



subsection \<open>The source block and the single rank\<close>

lemma for_step_empty: "\<not> i < n \<Longrightarrow> for_step i n t body s = Some s"
  by (simp add: for_step.simps [of i])

lemma those_SomeD:
  "those xs = Some ys \<Longrightarrow> length ys = length xs \<and> (\<forall>i<length xs. xs ! i = Some (ys ! i))"
proof (induction xs arbitrary: ys)
  case Nil
  then show ?case by simp
next
  case (Cons x xs)
  then obtain y ys' where y: "x = Some y" "those xs = Some ys'" "ys = y # ys'"
    by (auto split: option.splits)
  then show ?case using Cons.IH [of ys'] by (auto simp: nth_Cons split: nat.splits)
qed

lemma all_ranks_SomeD:
  assumes "all_ranks f ps = Some ps'"
  shows "length ps' = length ps" and "\<And>r. r < length ps \<Longrightarrow> f r (ps ! r) = Some (ps' ! r)"
  using those_SomeD [OF assms [unfolded all_ranks_def]] by simp_all

lemma self_transpose_frame:
  "self_transpose c r p = Some p' \<Longrightarrow>
     A_p p' = A_p p \<and> Work_in_p p' = Work_in_p p \<and> Work_out_p p' = Work_out_p p"
  by (auto simp: self_transpose_def Let_def split: bind_splits)

lemma pack_frame:
  "pack c ph r p = Some p' \<Longrightarrow> A_p p' = A_p p \<and> B_p p' = B_p p \<and> Work_in_p p' = Work_in_p p"
  by (auto simp: pack_def Let_def split: bind_splits)

lemma scatter_frame:
  "scatter c ph r p = Some p' \<Longrightarrow>
     A_p p' = A_p p \<and> Work_in_p p' = Work_in_p p \<and> Work_out_p p' = Work_out_p p"
  by (auto simp: scatter_def Let_def split: bind_splits)

lemma MPI_recv_frame:
  "MPI_recv c ph net r p = Some p' \<Longrightarrow>
     A_p p' = A_p p \<and> B_p p' = B_p p \<and> Work_out_p p' = Work_out_p p"
  by (auto simp: MPI_recv_def split: option.splits if_splits bind_splits)

lemma exchange_frame:
  assumes "exchange c ph ps = Some ps'" "r < length ps"
  shows "A_p (ps' ! r) = A_p (ps ! r) \<and> B_p (ps' ! r) = B_p (ps ! r) \<and>
         Work_out_p (ps' ! r) = Work_out_p (ps ! r)"
proof -
  obtain net where "all_ranks (MPI_recv c ph net) ps = Some ps'"
    using assms(1) by (auto simp: exchange_def split: bind_splits)
  then have "MPI_recv c ph net r (ps ! r) = Some (ps' ! r)"
    using assms(2) by (rule all_ranks_SomeD(2))
  then show ?thesis by (rule MPI_recv_frame)
qed

text \<open>
  Claim C9. No step of an iteration stores to \<open>A\<close>: whenever the self-transpose, the
  transpose of an outgoing block, the exchange or the scatter returns, it returns the
  \<open>A_p\<close> it was given (the steps store to \<open>B_p\<close>, \<open>Work_out_p\<close>, \<open>Work_in_p\<close> and \<open>B_p\<close>
  respectively); this holds for every input. On an input that is accepted and in range
  the program reaches every number \<open>m\<close> of passes through the iteration loop, and
  \<open>A_p\<close> of every rank is then, values and store counters, what the initialisation
  left: \<open>A(i,j) = order*(j+colstart) + i\<close>.
\<close>

theorem source_block_unchanged:
  "(\<forall>r p p'. self_transpose c r p = Some p' \<longrightarrow> A_p p' = A_p p)
 \<and> (\<forall>ph r p p'. pack c ph r p = Some p' \<longrightarrow> A_p p' = A_p p)
 \<and> (\<forall>ph ps ps'. exchange c ph ps = Some ps' \<longrightarrow>
       (\<forall>r<length ps. A_p (ps' ! r) = A_p (ps ! r)))
 \<and> (\<forall>ph r p p'. scatter c ph r p = Some p' \<longrightarrow> A_p p' = A_p p)
 \<and> (accepted MAX_THREADS c \<and> in_range c \<longrightarrow>
       (\<exists>w0. start c junk = Some w0 \<and>
          (\<forall>m. \<exists>w. after_passes c junk m = Some w \<and>
             (\<forall>r<Num_procs c.
                A_p (ranks w ! r) = A_p (ranks w0 ! r) \<and>
                (\<forall>i<order c. \<forall>j<Block_order c.
                   load (A_p (ranks w ! r)) (colblock_ix 0 (order c) i j)
                     = Some (real (order c * (j + colstart c r) + i)))))))"
proof (intro conjI impI)
  show "\<forall>r p p'. self_transpose c r p = Some p' \<longrightarrow> A_p p' = A_p p"
    using self_transpose_frame by blast
  show "\<forall>ph r p p'. pack c ph r p = Some p' \<longrightarrow> A_p p' = A_p p"
    using pack_frame by blast
  show "\<forall>ph ps ps'. exchange c ph ps = Some ps' \<longrightarrow>
          (\<forall>r<length ps. A_p (ps' ! r) = A_p (ps ! r))"
    using exchange_frame by blast
  show "\<forall>ph r p p'. scatter c ph r p = Some p' \<longrightarrow> A_p p' = A_p p"
    using scatter_frame by blast
  assume "accepted MAX_THREADS c \<and> in_range c"
  then have c: "valid c" by (auto intro: validI)
  obtain w0 where w0: "start c junk = Some w0" "world_inv c 0 w0"
    using start_ok [OF c] by blast
  have "\<exists>w. after_passes c junk m = Some w \<and>
          (\<forall>r<Num_procs c.
             A_p (ranks w ! r) = A_p (ranks w0 ! r) \<and>
             (\<forall>i<order c. \<forall>j<Block_order c.
                load (A_p (ranks w ! r)) (colblock_ix 0 (order c) i j)
                  = Some (real (order c * (j + colstart c r) + i))))" for m
  proof -
    obtain w where w: "after_passes c junk m = Some w" "world_inv c m w"
      using after_passes_ok [OF c] by blast
    have "A_p (ranks w ! r) = A_init c r" "A_p (ranks w0 ! r) = A_init c r"
      if "r < Num_procs c" for r
      using w(2) w0(2) that by (simp_all add: world_inv_def ranks_inv_def)
    then show ?thesis using w(1) by (auto simp: load_A_init [OF c])
  qed
  then show "\<exists>w0. start c junk = Some w0 \<and>
             (\<forall>m. \<exists>w. after_passes c junk m = Some w \<and>
                (\<forall>r<Num_procs c.
                   A_p (ranks w ! r) = A_p (ranks w0 ! r) \<and>
                   (\<forall>i<order c. \<forall>j<Block_order c.
                      load (A_p (ranks w ! r)) (colblock_ix 0 (order c) i j)
                        = Some (real (order c * (j + colstart c r) + i)))))"
    using w0(1) by blast
qed

theorem source_block_unchanged_witness:
  "\<exists>w0 w. start c_spec (\<lambda>r b k. 0) = Some w0 \<and> after_passes c_spec (\<lambda>r b k. 0) 2 = Some w \<and>
     A_p (ranks w ! 1) = A_p (ranks w0 ! 1) \<and>
     load (A_p (ranks w ! 1)) (colblock_ix 0 4 1 1) = Some 13"
proof -
  have h: "accepted 512 c_spec \<and> in_range c_spec"
    by (simp add: accepted_def in_range_def c_spec_def Block_order_def)
  note t = source_block_unchanged [of c_spec 512 "\<lambda>r b k. 0"]
  obtain w0 where w0: "start c_spec (\<lambda>r b k. 0) = Some w0"
    and a: "\<forall>m. \<exists>w. after_passes c_spec (\<lambda>r b k. 0) m = Some w \<and>
                (\<forall>r<Num_procs c_spec.
                   A_p (ranks w ! r) = A_p (ranks w0 ! r) \<and>
                   (\<forall>i<order c_spec. \<forall>j<Block_order c_spec.
                      load (A_p (ranks w ! r)) (colblock_ix 0 (order c_spec) i j)
                        = Some (real (order c_spec * (j + colstart c_spec r) + i))))"
    using t h by blast
  obtain w where w: "after_passes c_spec (\<lambda>r b k. 0) 2 = Some w"
    and b: "\<forall>r<Num_procs c_spec.
                   A_p (ranks w ! r) = A_p (ranks w0 ! r) \<and>
                   (\<forall>i<order c_spec. \<forall>j<Block_order c_spec.
                      load (A_p (ranks w ! r)) (colblock_ix 0 (order c_spec) i j)
                        = Some (real (order c_spec * (j + colstart c_spec r) + i)))"
    using a by blast
  have v: "Num_procs c_spec = 2" "order c_spec = 4" "Block_order c_spec = 2"
    "colstart c_spec 1 = 2"
    by (simp_all add: c_spec_def Block_order_def colstart_def)
  have r1: "(1::nat) < Num_procs c_spec" by (simp add: v)
  note b1 = b [rule_format, OF r1]
  have x: "A_p (ranks w ! 1) = A_p (ranks w0 ! 1)"
    using b1 by (rule conjunct1)
  have i1: "(1::nat) < order c_spec" "(1::nat) < Block_order c_spec" by (simp_all add: v)
  have "load (A_p (ranks w ! 1)) (colblock_ix 0 (order c_spec) 1 1)
          = Some (real (order c_spec * (1 + colstart c_spec 1) + 1))"
    using b1 [THEN conjunct2, rule_format, OF i1] .
  then have y: "load (A_p (ranks w ! 1)) (colblock_ix 0 4 1 1) = Some 13"
    by (simp add: c_spec_def Block_order_def colstart_def)
  show ?thesis using w0 w x y by blast
qed

text \<open>
  Claim C6. With one rank the phase loop \<open>for (phase=1; phase<Num_procs; phase++)\<close> runs
  no body, whatever the body: an iteration is the self-transpose alone, and no send or
  receive is made. No workspace is allocated. On an input that is accepted and in range
  the run returns with the full transpose in \<open>B\<close> (\<open>Block_order = order\<close> and
  \<open>colstart = 0\<close>), and it is the self-transpose repeated: each pass of the loop is
  \<open>self_transpose\<close> on the one rank.
\<close>

theorem single_rank_transpose:
  assumes "Num_procs c = 1"
  shows "(\<forall>(body :: nat \<Rightarrow> peer list \<Rightarrow> peer list option) ps.
            for_step 1 (Num_procs c) 1 body ps = Some ps)
       \<and> (\<forall>ps. transpose_once c ps = all_ranks (self_transpose c) ps)
       \<and> Work_in_p (allocate c (junk 0)) = [] \<and> Work_out_p (allocate c (junk 0)) = []
       \<and> (accepted MAX_THREADS c \<and> in_range c \<longrightarrow>
            (\<exists>w. run c junk = Some w \<and> length (ranks w) = 1 \<and>
               Work_in_p (ranks w ! 0) = [] \<and> Work_out_p (ranks w ! 0) = [] \<and>
               (\<forall>i<order c. \<forall>j<order c.
                  load (B_p (ranks w ! 0)) (colblock_ix 0 (order c) i j)
                    = Some (real (order c * i + j)))))"
proof (intro conjI impI)
  show loop: "\<forall>(body :: nat \<Rightarrow> peer list \<Rightarrow> peer list option) ps.
          for_step 1 (Num_procs c) 1 body ps = Some ps"
    using assms(1) by (simp add: for_step_empty)
  show "\<forall>ps. transpose_once c ps = all_ranks (self_transpose c) ps"
    using loop by (simp add: transpose_once_def)
  show "Work_in_p (allocate c (junk 0)) = []" "Work_out_p (allocate c (junk 0)) = []"
    using assms(1) by (simp_all add: allocate_def Let_def)
  assume "accepted MAX_THREADS c \<and> in_range c"
  then have c: "valid c" by (auto intro: validI)
  obtain wl where wl: "run c junk = Some (wl\<lparr>trace := trace wl @ [(Timer_stop, ranks wl)]\<rparr>)"
    "world_inv c (Suc (iterations c)) wl"
    using run_ok [OF c] by blast
  let ?w = "wl\<lparr>trace := trace wl @ [(Timer_stop, ranks wl)]\<rparr>"
  have st: "length (ranks ?w) = 1" "B_p (ranks ?w ! 0) = B_after c 0 (Suc (iterations c))"
    "length (Work_in_p (ranks ?w ! 0)) = 0" "length (Work_out_p (ranks ?w ! 0)) = 0"
    using wl(2) assms(1) by (simp_all add: world_inv_def ranks_inv_def wlen_def)
  have Bo: "Block_order c = order c" "colstart c 0 = 0"
    using assms(1) by (simp_all add: Block_order_def colstart_def)
  have "load (B_p (ranks ?w ! 0)) (colblock_ix 0 (order c) i j) = Some (real (order c * i + j))"
    if "i < order c" "j < order c" for i j
    using load_B_after [OF c, of i j "Suc (iterations c)" 0] that Bo st(2) by simp
  then show "\<exists>w. run c junk = Some w \<and> length (ranks w) = 1 \<and>
             Work_in_p (ranks w ! 0) = [] \<and> Work_out_p (ranks w ! 0) = [] \<and>
             (\<forall>i<order c. \<forall>j<order c.
                load (B_p (ranks w ! 0)) (colblock_ix 0 (order c) i j)
                  = Some (real (order c * i + j)))"
    using wl(1) st by (intro exI [of _ ?w]) simp
qed

theorem single_rank_transpose_witness:
  "transpose_once c_single [] = all_ranks (self_transpose c_single) []
   \<and> Work_in_p (allocate c_single (\<lambda>b k. 0)) = []
   \<and> (\<exists>w. run c_single (\<lambda>r b k. 0) = Some w \<and> Work_out_p (ranks w ! 0) = [] \<and>
          load (B_p (ranks w ! 0)) (colblock_ix 0 3 1 2) = Some 5)"
proof -
  have h: "Num_procs c_single = 1" by (simp add: c_single_def)
  have g: "accepted 512 c_single \<and> in_range c_single"
    by (simp add: accepted_def in_range_def c_single_def Block_order_def)
  note t = single_rank_transpose [OF h, of "\<lambda>r b k. 0" 512]
  have a: "transpose_once c_single [] = all_ranks (self_transpose c_single) []"
    using t by blast
  have b: "Work_in_p (allocate c_single (\<lambda>b k. 0)) = []"
    using t by blast
  obtain w where w: "run c_single (\<lambda>r b k. 0) = Some w" "Work_out_p (ranks w ! 0) = []"
    and l: "\<forall>i<order c_single. \<forall>j<order c_single.
                load (B_p (ranks w ! 0)) (colblock_ix 0 (order c_single) i j)
                  = Some (real (order c_single * i + j))"
    using t g by blast
  have "load (B_p (ranks w ! 0)) (colblock_ix 0 3 1 2) = Some 5"
    using l [rule_format, of 1 2] by (simp add: c_single_def)
  then show ?thesis using a b w by blast
qed

subsection \<open>Stores to the destination block\<close>

lemma div_eq_range:
  assumes "0 < (b::nat)"
  shows "(a div b = q) = (q * b \<le> a \<and> a < q * b + b)"
proof
  assume "a div b = q"
  then show "q * b \<le> a \<and> a < q * b + b"
    using assms dividend_less_times_div [of b a] times_div_less_eq_dividend [of b a]
    by (auto simp: mult.commute)
next
  assume "q * b \<le> a \<and> a < q * b + b"
  then show "a div b = q" by (intro div_nat_eqI) (simp_all add: mult.commute)
qed

lemma row_block_rows:
  assumes "valid c" "q < Num_procs c" "k < Colblock_size c"
  shows "(k \<in> row_block c q) = in_rows c (q * Block_order c) k"
  using assms div_eq_range [OF Block_order_pos [OF assms(3)], of "k mod order c" q]
  by (simp add: row_block_iff in_rows_def)

lemma local_transpose_stores:
  assumes inj: "inj_on (\<lambda>(i, j). dest j i) ({..<Block_order c} \<times> {..<Block_order c})"
    and src: "\<And>i j. i < Block_order c \<Longrightarrow> j < Block_order c \<Longrightarrow>
                colblock_ix istart (order c) i j < length a"
    and dst: "\<And>i j. i < Block_order c \<Longrightarrow> j < Block_order c \<Longrightarrow> dest j i < length b"
  shows "\<exists>v. local_transpose c istart dest a b
           = Some (stored ((\<lambda>(i, j). dest j i) ` ({..<Block_order c} \<times> {..<Block_order c})) v b)"
proof -
  let ?D = "{..<Block_order c} \<times> {..<Block_order c}"
  let ?g = "\<lambda>(i, j). dest j i"
  define v where
    "v k = fst (a ! (case the_inv_into ?D ?g k of (i, j) \<Rightarrow> colblock_ix istart (order c) i j))"
    for k
  have v: "v (dest j i) = fst (a ! colblock_ix istart (order c) i j)"
    if "i < Block_order c" "j < Block_order c" for i j
  proof -
    have "the_inv_into ?D ?g (?g (i, j)) = (i, j)"
      using inj that by (intro the_inv_into_f_f) simp_all
    then show ?thesis by (simp add: v_def)
  qed
  show ?thesis using local_transpose_ok [OF inj src dst v] by blast
qed

lemma self_transpose_stores:
  assumes c: "valid c" and r: "r < Num_procs c"
    and A: "length (A_p p) = Colblock_size c" and B: "length (B_p p) = Colblock_size c"
  shows "\<exists>v. self_transpose c r p = Some (p\<lparr>B_p := stored (row_block c r) v (B_p p)\<rparr>)"
proof -
  let ?Bo = "Block_order c" and ?ord = "order c"
  let ?is = "r * ?Bo"
  have cs: "colstart c r = ?is" by (simp add: colstart_def)
  have inj: "inj_on (\<lambda>(i, j). colblock_ix ?is ?ord j i) ({..<?Bo} \<times> {..<?Bo})"
    using block_in_order [OF c r] by (rule inj_colblock)
  have "\<exists>v. local_transpose c ?is (colblock_ix ?is ?ord) (A_p p) (B_p p)
          = Some (stored ((\<lambda>(i, j). colblock_ix ?is ?ord j i) ` ({..<?Bo} \<times> {..<?Bo}))
                    v (B_p p))"
  proof (rule local_transpose_stores [OF inj])
    fix i j assume ij: "i < ?Bo" "j < ?Bo"
    show "colblock_ix ?is ?ord i j < length (A_p p)"
      using block_src_bound(2) [OF c r ij] A by simp
    show "colblock_ix ?is ?ord j i < length (B_p p)"
      using block_src_bound(2) [OF c r ij(2,1)] B by simp
  qed
  moreover have "(\<lambda>(i, j). colblock_ix ?is ?ord j i) = (\<lambda>(j, i). colblock_ix ?is ?ord i j)"
    by auto
  ultimately show ?thesis
    by (auto simp: self_transpose_def cs row_block_def)
qed

lemma scatter_stores:
  assumes c: "valid c" and r: "r < Num_procs c" and q: "recv_from r phase (Num_procs c) = q"
    "q < Num_procs c"
    and W: "length (Work_in_p p) = Block_size c" and B: "length (B_p p) = Colblock_size c"
  shows "\<exists>v. scatter c phase r p = Some (p\<lparr>B_p := stored (row_block c q) v (B_p p)\<rparr>)"
proof -
  let ?Bo = "Block_order c" and ?ord = "order c"
  let ?is = "q * ?Bo"
  let ?D = "{..<?Bo} \<times> {..<?Bo}"
  let ?g = "\<lambda>(j, i). colblock_ix ?is ?ord i j"
  define v where
    "v k = fst (Work_in_p p ! (case the_inv_into ?D ?g k of (j, i) \<Rightarrow> work_ix ?Bo i j))" for k
  let ?F = "\<lambda>S. stored (?g ` S) v"
  have inj: "inj_on ?g ?D"
    using block_in_order [OF c q(2)] by (rule inj_colblock)
  have fam: "family ?D (\<lambda>x. length x = length (B_p p)) ?F"
    using inj by (rule family_stored)
  have body: "copy_cell (Work_in_p p) (work_ix ?Bo i j) (colblock_ix ?is ?ord i j) s
                = Some (?F {(j, i)} s)"
    if ji: "j < ?Bo" "i < ?Bo" and len: "length s = length (B_p p)" for j i s
  proof -
    have wb: "work_ix ?Bo i j < Block_size c"
      using work_bound [OF ji(2,1)] by (simp add: valid_sizes [OF c])
    have "the_inv_into ?D ?g (?g (j, i)) = (j, i)"
      using inj ji by (intro the_inv_into_f_f) simp_all
    then have "v (colblock_ix ?is ?ord i j) = fst (Work_in_p p ! work_ix ?Bo i j)"
      by (simp add: v_def)
    then have "copy_cell (Work_in_p p) (work_ix ?Bo i j) (colblock_ix ?is ?ord i j) s
                 = Some (stored {colblock_ix ?is ?ord i j} v s)"
      using wb W block_src_bound(2) [OF c q(2) ji(2,1)] len B
      by (intro copy_cell_stored) simp_all
    then show ?thesis by simp
  qed
  have "flat_nest ?Bo ?Bo (\<lambda>j i. copy_cell (Work_in_p p) (work_ix ?Bo i j)
           (colblock_ix ?is ?ord i j)) (B_p p) = Some (?F ?D (B_p p))"
    by (rule flat_nest_family [OF fam _ body]) simp_all
  then show ?thesis
    by (auto simp: scatter_def q(1) row_block_def)
qed

lemma stored_counts:
  assumes "valid c" "q < Num_procs c" "length b = Colblock_size c" "k < Colblock_size c"
  shows "snd (stored (row_block c q) v b ! k)
           = snd (b ! k) + (if in_rows c (q * Block_order c) k then 1 else 0)"
    and "\<not> in_rows c (q * Block_order c) k \<Longrightarrow> stored (row_block c q) v b ! k = b ! k"
  using assms by (simp_all add: nth_stored row_block_rows)

lemma after_passes_Suc:
  "after_passes c junk (Suc m) = Option.bind (after_passes c junk m) (iteration c m)"
proof (cases "start c junk")
  case None
  then show ?thesis by (simp add: after_passes_def)
next
  case (Some w0)
  have "for_step m (Suc m) 1 (iteration c) w = iteration c m w" for w
    by (cases "iteration c m w") (simp_all add: for_step.simps [of m "Suc m"] for_step_empty)
  then have "for_step m (Suc m) 1 (iteration c) = iteration c m" by (rule ext)
  then show ?thesis
    using Some for_step_split [of 0 m "Suc m" "iteration c" w0]
    by (simp add: after_passes_def)
qed

lemma recv_from_unique:
  assumes "r < P" "q < P" "q \<noteq> r" "P < 2 ^ 31"
  shows "\<exists>!ph. ph \<in> {1..<P} \<and> recv_from r ph P = q"
proof -
  have "(ph \<in> {1..<P} \<and> recv_from r ph P = q) = (ph \<in> {1..<P} \<and> (q + P - ph) mod P = r)" for ph
  proof (cases "ph \<in> {1..<P}")
    case True
    then have ph: "1 \<le> ph" "ph < P" by simp_all
    have "recv_from r ph P = (r + ph) mod P" using assms(1) ph(2) assms(4) by (rule recv_from_nat)
    then show ?thesis using ring_inverse [OF assms(2,1) ph] by auto
  next
    case False
    then show ?thesis by blast
  qed
  then show ?thesis using ring_unique [OF assms(2,1,3)] by simp
qed

lemma iteration_ranks:
  "iteration c m w = Some w' \<Longrightarrow> transpose_once c (ranks w) = Some (ranks w')"
  by (cases "m = 1") (auto simp: iteration_def Let_def split: bind_splits)

text \<open>
  Claim C10. On an input that is accepted and in range, for a rank \<open>r\<close> and any state
  of it with arrays of the allocated sizes: the self-transpose stores exactly once to each cell of \<open>B\<close> in the rows
  \<open>[colstart, colstart + Block_order)\<close> and to no other cell; the scatter of a phase
  stores exactly once to each cell in the rows
  \<open>[recv_from*Block_order, (recv_from+1)*Block_order)\<close> and to no other; every cell of \<open>B\<close>
  lies either in the rows of the self-transpose and in those of no phase, or in the rows
  of exactly one phase and not in those of the self-transpose. In the run, each pass
  through the loop body raises the store counter of every cell of \<open>B\<close> of every rank by
  exactly one.
\<close>

theorem each_cell_stored_once:
  assumes "accepted MAX_THREADS c" and "in_range c"
    and "r < Num_procs c"
    and "length (A_p p) = Colblock_size c" and "length (B_p p) = Colblock_size c"
    and "length (Work_in_p p) = Block_size c"
  shows "(\<exists>p'. self_transpose c r p = Some p' \<and>
            (\<forall>k<Colblock_size c.
               snd (B_p p' ! k) = snd (B_p p ! k) + (if in_rows c (colstart c r) k then 1 else 0) \<and>
               (\<not> in_rows c (colstart c r) k \<longrightarrow> B_p p' ! k = B_p p ! k)))
       \<and> (\<forall>phase\<in>{1..<Num_procs c}. \<exists>p'. scatter c phase r p = Some p' \<and>
            (\<forall>k<Colblock_size c.
               snd (B_p p' ! k) = snd (B_p p ! k) +
                 (if in_rows c (recv_from r phase (Num_procs c) * Block_order c) k then 1 else 0) \<and>
               (\<not> in_rows c (recv_from r phase (Num_procs c) * Block_order c) k
                  \<longrightarrow> B_p p' ! k = B_p p ! k)))
       \<and> (\<forall>k<Colblock_size c.
            (in_rows c (colstart c r) k \<and>
               (\<forall>phase\<in>{1..<Num_procs c}.
                  \<not> in_rows c (recv_from r phase (Num_procs c) * Block_order c) k)) \<or>
            (\<not> in_rows c (colstart c r) k \<and>
               (\<exists>!phase. phase \<in> {1..<Num_procs c} \<and>
                  in_rows c (recv_from r phase (Num_procs c) * Block_order c) k)))
       \<and> (\<forall>m. \<exists>w w'. after_passes c junk m = Some w \<and> iteration c m w = Some w' \<and>
            after_passes c junk (Suc m) = Some w' \<and>
            transpose_once c (ranks w) = Some (ranks w') \<and>
            (\<forall>r<Num_procs c. \<forall>k<Colblock_size c.
               snd (B_p (ranks w' ! r) ! k) = Suc (snd (B_p (ranks w ! r) ! k))))"
proof (intro conjI)
  let ?P = "Num_procs c" and ?Bo = "Block_order c" and ?n = "Colblock_size c"
  have c: "valid c" using assms(1,2) by (rule validI)
  have P1: "1 \<le> ?P" and P: "?P < 2 ^ 31" using assms(2) by (simp_all add: in_range_def)
  note r = assms(3)
  have cs: "colstart c r = r * ?Bo" by (simp add: colstart_def)
  show "\<exists>p'. self_transpose c r p = Some p' \<and>
            (\<forall>k<?n.
               snd (B_p p' ! k) = snd (B_p p ! k) + (if in_rows c (colstart c r) k then 1 else 0) \<and>
               (\<not> in_rows c (colstart c r) k \<longrightarrow> B_p p' ! k = B_p p ! k))"
  proof -
    obtain v where "self_transpose c r p = Some (p\<lparr>B_p := stored (row_block c r) v (B_p p)\<rparr>)"
      using self_transpose_stores [OF c r assms(4,5)] by blast
    then show ?thesis
      using stored_counts [OF c r assms(5), of _ v] by (simp add: cs)
  qed
  show "\<forall>phase\<in>{1..<?P}. \<exists>p'. scatter c phase r p = Some p' \<and>
            (\<forall>k<?n.
               snd (B_p p' ! k) = snd (B_p p ! k) +
                 (if in_rows c (recv_from r phase ?P * ?Bo) k then 1 else 0) \<and>
               (\<not> in_rows c (recv_from r phase ?P * ?Bo) k \<longrightarrow> B_p p' ! k = B_p p ! k))"
  proof
    fix phase assume "phase \<in> {1..<?P}"
    then have ph: "1 \<le> phase" "phase < ?P" by simp_all
    have q: "recv_from r phase ?P < ?P" by (rule recv_from_facts(1) [OF r ph P])
    obtain v where "scatter c phase r p
        = Some (p\<lparr>B_p := stored (row_block c (recv_from r phase ?P)) v (B_p p)\<rparr>)"
      using scatter_stores [OF c r refl q assms(6,5)] by blast
    then show "\<exists>p'. scatter c phase r p = Some p' \<and>
            (\<forall>k<?n.
               snd (B_p p' ! k) = snd (B_p p ! k) +
                 (if in_rows c (recv_from r phase ?P * ?Bo) k then 1 else 0) \<and>
               (\<not> in_rows c (recv_from r phase ?P * ?Bo) k \<longrightarrow> B_p p' ! k = B_p p ! k))"
      using stored_counts [OF c q assms(5), of _ v] by simp
  qed
  show "\<forall>k<?n.
            (in_rows c (colstart c r) k \<and>
               (\<forall>phase\<in>{1..<?P}. \<not> in_rows c (recv_from r phase ?P * ?Bo) k)) \<or>
            (\<not> in_rows c (colstart c r) k \<and>
               (\<exists>!phase. phase \<in> {1..<?P} \<and> in_rows c (recv_from r phase ?P * ?Bo) k))"
  proof (intro allI impI)
    fix k assume k: "k < ?n"
    let ?q = "(k mod order c) div ?Bo"
    have rows: "in_rows c (q * ?Bo) k = (?q = q)" if "q < ?P" for q
      using row_block_rows [OF c that k] row_block_iff [OF c that, of k] k by auto
    have self: "in_rows c (colstart c r) k = (?q = r)" using rows [OF r] by (simp add: cs)
    have phase: "in_rows c (recv_from r ph ?P * ?Bo) k = (recv_from r ph ?P = ?q)"
      if "ph \<in> {1..<?P}" for ph
      using rows [OF recv_from_facts(1) [OF r _ _ P, of ph]] that by auto
    have Bo: "0 < ?Bo" using k by (rule Block_order_pos)
    have "0 < ?P * ?Bo" using P1 Bo by simp
    then have "k mod (?P * ?Bo) < ?P * ?Bo" by (rule mod_less_divisor)
    then have "k mod order c < ?P * ?Bo" by (simp only: valid_order [OF c])
    then have qP: "?q < ?P" by (rule less_mult_imp_div_less)
    show "(in_rows c (colstart c r) k \<and>
               (\<forall>phase\<in>{1..<?P}. \<not> in_rows c (recv_from r phase ?P * ?Bo) k)) \<or>
            (\<not> in_rows c (colstart c r) k \<and>
               (\<exists>!phase. phase \<in> {1..<?P} \<and> in_rows c (recv_from r phase ?P * ?Bo) k))"
    proof (cases "?q = r")
      case True
      have "\<not> in_rows c (recv_from r ph ?P * ?Bo) k" if "ph \<in> {1..<?P}" for ph
        using phase [OF that] recv_from_facts(2) [OF r _ _ P, of ph] that True by auto
      then show ?thesis using self True by blast
    next
      case False
      have "\<exists>!ph. ph \<in> {1..<?P} \<and> recv_from r ph ?P = ?q"
        using r qP False P by (rule recv_from_unique)
      moreover have "(ph \<in> {1..<?P} \<and> in_rows c (recv_from r ph ?P * ?Bo) k)
          = (ph \<in> {1..<?P} \<and> recv_from r ph ?P = ?q)" for ph
        using phase [of ph] by blast
      ultimately have "\<exists>!ph. ph \<in> {1..<?P} \<and> in_rows c (recv_from r ph ?P * ?Bo) k"
        by simp
      then show ?thesis using self False by blast
    qed
  qed
  show "\<forall>m. \<exists>w w'. after_passes c junk m = Some w \<and> iteration c m w = Some w' \<and>
            after_passes c junk (Suc m) = Some w' \<and>
            transpose_once c (ranks w) = Some (ranks w') \<and>
            (\<forall>r<?P. \<forall>k<?n.
               snd (B_p (ranks w' ! r) ! k) = Suc (snd (B_p (ranks w ! r) ! k)))"
  proof
    fix m
    obtain w where w: "after_passes c junk m = Some w" "world_inv c m w"
      using after_passes_ok [OF c] by blast
    obtain w' where w': "iteration c m w = Some w'" "world_inv c (Suc m) w'"
      using iteration_ok [OF c w(2)] by blast
    have "after_passes c junk (Suc m) = Some w'"
      using w(1) w'(1) by (simp add: after_passes_Suc)
    moreover have "transpose_once c (ranks w) = Some (ranks w')"
      using w'(1) by (rule iteration_ranks)
    moreover have "snd (B_p (ranks w' ! r) ! k) = Suc (snd (B_p (ranks w ! r) ! k))"
      if "r < ?P" "k < ?n" for r k
      using w(2) w'(2) that by (simp add: world_inv_def ranks_inv_def nth_B_after)
    ultimately show "\<exists>w w'. after_passes c junk m = Some w \<and> iteration c m w = Some w' \<and>
            after_passes c junk (Suc m) = Some w' \<and>
            transpose_once c (ranks w) = Some (ranks w') \<and>
            (\<forall>r<?P. \<forall>k<?n.
               snd (B_p (ranks w' ! r) ! k) = Suc (snd (B_p (ranks w ! r) ! k)))"
      using w(1) w'(1) by blast
  qed
qed

theorem each_cell_stored_once_witness:
  "(\<exists>p'. self_transpose c_spec 0 (allocate c_spec (\<lambda>b k. 0)) = Some p' \<and>
          snd (B_p p' ! 0) = 1 \<and> snd (B_p p' ! 2) = 0)
   \<and> (\<exists>p'. scatter c_spec 1 0 (allocate c_spec (\<lambda>b k. 0)) = Some p' \<and>
          snd (B_p p' ! 2) = 1 \<and> snd (B_p p' ! 0) = 0)
   \<and> (\<exists>w w'. after_passes c_spec (\<lambda>r b k. 0) 1 = Some w \<and>
          after_passes c_spec (\<lambda>r b k. 0) 2 = Some w' \<and>
          snd (B_p (ranks w' ! 1) ! 5) = Suc (snd (B_p (ranks w ! 1) ! 5)))"
proof -
  let ?p = "allocate c_spec (\<lambda>b k. 0)"
  have v: "Num_procs c_spec = 2" "order c_spec = 4" "Block_order c_spec = 2"
    "Colblock_size c_spec = 8" "Block_size c_spec = 4" "colstart c_spec 0 = 0"
    by (simp_all add: c_spec_def Block_order_def colstart_def Colblock_size_def Block_size_def)
  have h: "accepted 512 c_spec" "in_range c_spec" "0 < Num_procs c_spec"
    "length (A_p ?p) = Colblock_size c_spec" "length (B_p ?p) = Colblock_size c_spec"
    "length (Work_in_p ?p) = Block_size c_spec"
    by (simp_all add: v allocate_def doubles_in_def accepted_def in_range_def) (simp_all add: c_spec_def)
  note t = each_cell_stored_once [OF h, of "\<lambda>r b k. 0"]
  have B0: "snd (B_p ?p ! 0) = 0" "snd (B_p ?p ! 2) = 0"
    by (simp_all add: allocate_def doubles_in_def malloc_def v)
  have rows: "in_rows c_spec 0 0" "\<not> in_rows c_spec 0 2" "in_rows c_spec 2 2"
    "\<not> in_rows c_spec 2 0"
    by (simp_all add: in_rows_def v)
  have rf: "recv_from 0 (Suc 0) 2 = Suc 0" by (simp add: recv_from_def)
  obtain p1 where p1: "self_transpose c_spec 0 ?p = Some p1"
    and k1: "\<forall>k<Colblock_size c_spec.
               snd (B_p p1 ! k) = snd (B_p ?p ! k)
                 + (if in_rows c_spec (colstart c_spec 0) k then 1 else 0) \<and>
               (\<not> in_rows c_spec (colstart c_spec 0) k \<longrightarrow> B_p p1 ! k = B_p ?p ! k)"
    using t by blast
  have "snd (B_p p1 ! 0) = 1" "snd (B_p p1 ! 2) = 0"
    using k1 [rule_format, of 0] k1 [rule_format, of 2] B0 rows by (simp_all add: v)
  then have a: "\<exists>p'. self_transpose c_spec 0 ?p = Some p' \<and>
          snd (B_p p' ! 0) = 1 \<and> snd (B_p p' ! 2) = 0"
    using p1 by blast
  have "\<forall>phase\<in>{1..<Num_procs c_spec}. \<exists>p'. scatter c_spec phase 0 ?p = Some p' \<and>
            (\<forall>k<Colblock_size c_spec.
               snd (B_p p' ! k) = snd (B_p ?p ! k) +
                 (if in_rows c_spec (recv_from 0 phase (Num_procs c_spec) * Block_order c_spec) k
                  then 1 else 0) \<and>
               (\<not> in_rows c_spec (recv_from 0 phase (Num_procs c_spec) * Block_order c_spec) k
                  \<longrightarrow> B_p p' ! k = B_p ?p ! k))"
    using t by blast
  moreover have "(1::nat) \<in> {1..<Num_procs c_spec}" by (simp add: v)
  ultimately obtain p2 where p2: "scatter c_spec 1 0 ?p = Some p2"
    and k2: "\<forall>k<Colblock_size c_spec.
               snd (B_p p2 ! k) = snd (B_p ?p ! k) +
                 (if in_rows c_spec (recv_from 0 1 (Num_procs c_spec) * Block_order c_spec) k
                  then 1 else 0) \<and>
               (\<not> in_rows c_spec (recv_from 0 1 (Num_procs c_spec) * Block_order c_spec) k
                  \<longrightarrow> B_p p2 ! k = B_p ?p ! k)"
    by blast
  have "snd (B_p p2 ! 2) = 1" "snd (B_p p2 ! 0) = 0"
    using k2 [rule_format, of 2] k2 [rule_format, of 0] B0 rows by (simp_all add: v rf)
  then have b: "\<exists>p'. scatter c_spec 1 0 ?p = Some p' \<and>
          snd (B_p p' ! 2) = 1 \<and> snd (B_p p' ! 0) = 0"
    using p2 by blast
  have "\<forall>m. \<exists>w w'. after_passes c_spec (\<lambda>r b k. 0) m = Some w \<and> iteration c_spec m w = Some w' \<and>
            after_passes c_spec (\<lambda>r b k. 0) (Suc m) = Some w' \<and>
            transpose_once c_spec (ranks w) = Some (ranks w') \<and>
            (\<forall>r<Num_procs c_spec. \<forall>k<Colblock_size c_spec.
               snd (B_p (ranks w' ! r) ! k) = Suc (snd (B_p (ranks w ! r) ! k)))"
    using t by blast
  then obtain w w' where w: "after_passes c_spec (\<lambda>r b k. 0) 1 = Some w"
    "after_passes c_spec (\<lambda>r b k. 0) (Suc 1) = Some w'"
    and k3: "\<forall>r<Num_procs c_spec. \<forall>k<Colblock_size c_spec.
               snd (B_p (ranks w' ! r) ! k) = Suc (snd (B_p (ranks w ! r) ! k))"
    by blast
  have "snd (B_p (ranks w' ! 1) ! 5) = Suc (snd (B_p (ranks w ! 1) ! 5))"
    using k3 [rule_format, of 1 5] by (simp add: v)
  moreover have "Suc 1 = 2" by simp
  ultimately have c: "\<exists>w w'. after_passes c_spec (\<lambda>r b k. 0) 1 = Some w \<and>
          after_passes c_spec (\<lambda>r b k. 0) 2 = Some w' \<and>
          snd (B_p (ranks w' ! 1) ! 5) = Suc (snd (B_p (ranks w ! 1) ! 5))"
    using w by metis
  show ?thesis using a b c by blast
qed

subsection \<open>Verification\<close>

lemma rounding_nat:
  assumes "rounding rnd"
  shows "n \<le> 2 ^ 53 \<Longrightarrow> rnd (real n) = real n" and "1 \<le> k \<Longrightarrow> 1 \<le> rnd (real k)"
proof -
  show e: "rnd (real n) = real n" if "n \<le> 2 ^ 53" for n
    using assms that by (simp add: rounding_def)
  assume "1 \<le> k"
  then have "rnd (real (1::nat)) \<le> rnd (real k)"
    using assms by (simp add: rounding_def)
  moreover have "rnd (real (1::nat)) = real (1::nat)" by (rule e) simp
  ultimately show "1 \<le> rnd (real k)" by simp
qed


lemma rounding_zero: "rounding rnd \<Longrightarrow> rnd 0 = 0"
  using rounding_nat(1) [of rnd 0] by simp

lemma thread_step_calm:
  assumes "rounding rnd" "calm s" "thread_step rnd t s = Some s'"
  shows "calm s'"
proof -
  have t: "t < length (todo s)" using assms(3) by (simp add: thread_step_def split: if_splits)
  then obtain d ds where d: "todo s ! t = d # ds"
    using assms(3) by (cases "todo s ! t") (simp_all add: thread_step_def)
  have "d # ds \<in> set (todo s)" using t d by (metis nth_mem)
  then have z: "d = 0" "\<forall>x\<in>set ds. x = 0" using assms(2) by (auto simp: calm_def)
  show ?thesis
  proof (cases "loaded s ! t")
    case None
    then have "s' = s\<lparr>loaded := (loaded s)[t := Some (shared s)]\<rparr>"
      using assms(3) t d by (simp add: thread_step_def)
    then show ?thesis
      using assms(2) by (auto simp: calm_def dest!: set_update_subset_insert [THEN subsetD])
  next
    case (Some v)
    then have "Some v \<in> set (loaded s)" using t assms(2) by (metis calm_def nth_mem)
    then have v: "v = 0" using assms(2) by (auto simp: calm_def)
    have "s' = s\<lparr>shared := rnd (v + d), todo := (todo s)[t := ds],
                 loaded := (loaded s)[t := None]\<rparr>"
      using assms(3) t d Some by (simp add: thread_step_def)
    then show ?thesis
      using assms(2) v z rounding_zero [OF assms(1)]
      by (auto simp: calm_def dest!: set_update_subset_insert [THEN subsetD])
  qed
qed

lemma interleave_calm:
  assumes "rounding rnd"
  shows "calm s \<Longrightarrow> interleave rnd sched s = Some s' \<Longrightarrow> calm s'"
proof (induction sched arbitrary: s)
  case Nil
  then show ?case by simp
next
  case (Cons t ts)
  then obtain s1 where s1: "thread_step rnd t s = Some s1" "interleave rnd ts s1 = Some s'"
    by (auto split: option.splits)
  show ?case using thread_step_calm [OF assms Cons(2) s1(1)] s1(2) by (rule Cons(1))
qed

lemma addends_exact:
  assumes "rounding rnd" "j < Block_order c"
    and "\<And>i. i < order c \<Longrightarrow>
           load b (colblock_ix 0 (order c) i j) = Some (real (order c * i + (j + colstart c r)))"
  shows "addends rnd c r b j = Some (map (\<lambda>i. 0) [0..<order c])"
proof -
  let ?f = "\<lambda>i. map_option (\<lambda>x. \<bar>rnd (x - real (order c * i + j + colstart c r))\<bar>)
                        (load b (colblock_ix 0 (order c) i j))"
  have "?f i = Some ((\<lambda>i. 0) i)" if "i \<in> set [0..<order c]" for i
    using assms(3) [of i] that rounding_zero [OF assms(1)] by (simp add: add.assoc)
  then have "map ?f [0..<order c] = map (\<lambda>i. Some ((\<lambda>i. 0) i)) [0..<order c]"
    by (intro map_cong refl)
  then have "those (map ?f [0..<order c]) = those (map (\<lambda>i. Some ((\<lambda>i. 0) i)) [0..<order c])"
    by (rule arg_cong)
  also have "\<dots> = Some (map (\<lambda>i. 0) [0..<order c])" by (rule those_Some)
  finally show ?thesis unfolding addends_def .
qed

lemma abserr_exact:
  assumes "rounding rnd"
    and "\<And>i j. i < order c \<Longrightarrow> j < Block_order c \<Longrightarrow>
           load b (colblock_ix 0 (order c) i j) = Some (real (order c * i + (j + colstart c r)))"
    and "abserr rnd c r b owner sched = Some e"
  shows "e = 0"
proof -
  let ?n = "nat (sint (nthread_input c))" and ?Bo = "Block_order c"
  let ?cols = "map (\<lambda>j. map (\<lambda>i. 0::real) [0..<order c]) [0..<?Bo]"
  let ?s0 = "\<lparr>shared = 0,
              todo = map (\<lambda>t. concat (map (\<lambda>j. ?cols ! j) (filter (\<lambda>j. owner j = t) [0..<?Bo]))) [0..<?n],
              loaded = replicate ?n None\<rparr>"
  have "addends rnd c r b j = Some ((\<lambda>j. map (\<lambda>i. 0) [0..<order c]) j)"
    if "j \<in> set [0..<?Bo]" for j
    using that by (intro addends_exact [OF assms(1) _ assms(2)]) simp_all
  then have "map (addends rnd c r b) [0..<?Bo]
               = map (\<lambda>j. Some ((\<lambda>j. map (\<lambda>i. 0) [0..<order c]) j)) [0..<?Bo]"
    by (intro map_cong refl)
  then have "those (map (addends rnd c r b) [0..<?Bo])
               = those (map (\<lambda>j. Some ((\<lambda>j. map (\<lambda>i. 0) [0..<order c]) j)) [0..<?Bo])"
    by (rule arg_cong)
  also have "\<dots> = Some ?cols" by (rule those_Some)
  finally have cols: "those (map (addends rnd c r b) [0..<?Bo]) = Some ?cols" .
  obtain s where s: "interleave rnd sched ?s0 = Some s" "e = shared s"
    using assms(3) cols by (auto simp: abserr_def Let_def split: if_splits bind_splits)
  have "calm ?s0" by (auto simp: calm_def)
  then have "calm s" using s(1) by (rule interleave_calm [OF assms(1)])
  then show ?thesis using s(2) by (simp add: calm_def)
qed

lemma addends_race:
  assumes "rounding rnd"
  shows "addends rnd c_race 0 B_race 0 = Some [1, 0]" "addends rnd c_race 0 B_race 1 = Some [0, 0]"
  using rounding_nat(1) [OF assms, of 0] rounding_nat(1) [OF assms, of 1]
  by (simp_all add: addends_def c_race_def B_race_def colstart_def Block_order_def load_def
      colblock_ix_def upt_rec)



lemma abserr_race:
  assumes "rounding rnd"
  shows "abserr rnd c_race 0 B_race (\<lambda>j. j) [0, 0, 0, 0, 1, 1, 1, 1] = Some 1"
    and "abserr rnd c_race 0 B_race (\<lambda>j. j) [1, 0, 0, 1, 0, 0, 1, 1] = Some 0"
proof -
  have n: "nat (sint (nthread_input c_race)) = 2" "Block_order c_race = 2"
    by (simp_all add: c_race_def Block_order_def)
  have u: "[0..<2] = [0, Suc 0]" by (simp add: upt_rec)
  have r: "rnd 0 = 0" "rnd 1 = 1"
    using rounding_nat(1) [OF assms, of 0] rounding_nat(1) [OF assms, of 1] by simp_all
  have a: "addends rnd c_race 0 B_race 0 = Some [1, 0]"
    "addends rnd c_race 0 B_race (Suc 0) = Some [0, 0]"
    using addends_race [OF assms] by simp_all
  show "abserr rnd c_race 0 B_race (\<lambda>j. j) [0, 0, 0, 0, 1, 1, 1, 1] = Some 1"
    by (simp add: abserr_def n u a thread_step_def r)
  show "abserr rnd c_race 0 B_race (\<lambda>j. j) [1, 0, 0, 1, 0, 0, 1, 1] = Some 0"
    by (simp add: abserr_def n u a thread_step_def r)
qed


text \<open>
  Claim C5, at an input where it fails. One rank with two threads, a matrix of order 2
  and \<open>B(0,0) = 1\<close> where the transpose has 0: the absolute differences sum to 1, which is
  not below the tolerance, and an execution in which thread 0 finishes before thread 1
  starts gives \<open>abserr = 1\<close>. In the execution in which thread 1 loads \<open>abserr\<close>, thread 0
  then adds the difference 1 of \<open>B(0,0)\<close>, and thread 1 then stores its sum \<open>0 + 0\<close>, the
  addition of thread 0 is lost: \<open>abserr\<close> and the reduced total are 0 and the run
  validates. All the numbers of this input are small integers, on which every rounding
  is exact. (On a \<open>B\<close> that holds the transpose every addend is 0 and every execution
  that ends gives 0: \<open>abserr_exact\<close>.)
\<close>

theorem validation_race:
  assumes "rounding rnd"
  shows "abserr rnd c_race 0 B_race (\<lambda>j. j) [0, 0, 0, 0, 1, 1, 1, 1] = Some 1
       \<and> abserr rnd c_race 0 B_race (\<lambda>j. j) [1, 0, 0, 1, 0, 0, 1, 1] = Some 0
       \<and> abserr_tot rnd c_race [p_race] (\<lambda>r j. j) (\<lambda>r. [1, 0, 0, 1, 0, 0, 1, 1]) = Some 0
       \<and> validates rnd c_race [p_race] (\<lambda>r j. j) (\<lambda>r. [1, 0, 0, 1, 0, 0, 1, 1]) = Some True
       \<and> (\<Sum>j<Block_order c_race. \<Sum>i<order c_race.
             \<bar>fst (B_race ! colblock_ix 0 (order c_race) i j)
                - real (order c_race * i + (j + colstart c_race 0))\<bar>) = 1
       \<and> \<not> 1 < epsilon"
proof (intro conjI)
  show "abserr rnd c_race 0 B_race (\<lambda>j. j) [0, 0, 0, 0, 1, 1, 1, 1] = Some 1"
    using assms by (rule abserr_race(1))
  show e: "abserr rnd c_race 0 B_race (\<lambda>j. j) [1, 0, 0, 1, 0, 0, 1, 1] = Some 0"
    using assms by (rule abserr_race(2))
  show t: "abserr_tot rnd c_race [p_race] (\<lambda>r j. j) (\<lambda>r. [1, 0, 0, 1, 0, 0, 1, 1]) = Some 0"
    using e by (simp add: abserr_tot_def all_ranks_def p_race_def reduce_sum_def)
  show "validates rnd c_race [p_race] (\<lambda>r j. j) (\<lambda>r. [1, 0, 0, 1, 0, 0, 1, 1]) = Some True"
    using t by (simp add: validates_def epsilon_def)
  show "(\<Sum>j<Block_order c_race. \<Sum>i<order c_race.
             \<bar>fst (B_race ! colblock_ix 0 (order c_race) i j)
                - real (order c_race * i + (j + colstart c_race 0))\<bar>) = 1"
    by (simp add: c_race_def B_race_def Block_order_def colstart_def colblock_ix_def
        eval_nat_numeral lessThan_Suc)
  show "\<not> 1 < epsilon" by (simp add: epsilon_def)
qed

theorem validation_race_witness:
  "rounding (\<lambda>x. x)
   \<and> abserr (\<lambda>x. x) c_race 0 B_race (\<lambda>j. j) [0, 0, 0, 0, 1, 1, 1, 1] = Some 1
   \<and> abserr (\<lambda>x. x) c_race 0 B_race (\<lambda>j. j) [1, 0, 0, 1, 0, 0, 1, 1] = Some 0
   \<and> validates (\<lambda>x. x) c_race [p_race] (\<lambda>r j. j) (\<lambda>r. [1, 0, 0, 1, 0, 0, 1, 1]) = Some True"
proof -
  have h: "rounding (\<lambda>x. x)" by (simp add: rounding_def)
  show ?thesis using validation_race [OF h] h by blast
qed

subsection \<open>The timed loop and the timing report\<close>

lemma timed_loop:
  assumes "for_step i n 1 (iteration c) w = Some w'" "2 \<le> i"
  shows "for_step i n 1 (\<lambda>iter. transpose_once c) (ranks w) = Some (ranks w') \<and> trace w' = trace w"
  using assms
proof (induction "n - i" arbitrary: i w)
  case 0
  then have "\<not> i < n" by simp
  then show ?case using 0(2) by (simp add: for_step.simps [of i])
next
  case (Suc d)
  then have lt: "i < n" by simp
  have ne: "i \<noteq> 1" using Suc(4) by simp
  obtain w1 where w1: "iteration c i w = Some w1" "for_step (Suc i) n 1 (iteration c) w1 = Some w'"
    using Suc(3) lt by (cases "iteration c i w") (simp_all add: for_step.simps [of i])
  have a: "transpose_once c (ranks w) = Some (ranks w1)" "trace w1 = trace w"
    using w1(1) ne by (auto simp: iteration_def split: bind_splits)
  have "for_step (Suc i) n 1 (\<lambda>iter. transpose_once c) (ranks w1) = Some (ranks w') \<and> trace w' = trace w1"
    using Suc(2,4) w1(2) by (intro Suc(1)) simp_all
  then show ?case using a lt by (simp add: for_step.simps [of i])
qed

lemma for_step_first:
  "i < n \<Longrightarrow> for_step i n 1 body s = Option.bind (body i s) (for_step (Suc i) n 1 body)"
  by (cases "body i s") (simp_all add: for_step.simps [of i])

lemma for_step_one: "for_step m (Suc m) 1 body s = body m s"
  by (cases "body m s") (simp_all add: for_step.simps [of m "Suc m"] for_step_empty)

lemma first_passes:
  assumes "for_step 0 2 1 (iteration c) w0 = Some w2"
  shows "\<exists>ps1. transpose_once c (ranks w0) = Some ps1 \<and>
           transpose_once c ps1 = Some (ranks w2) \<and>
           trace w2 = trace w0 @ [(Barrier, ps1), (Timer_start, ps1)]"
proof -
  have "for_step 0 2 1 (iteration c) w0
          = Option.bind (iteration c 0 w0) (for_step (Suc 0) 2 1 (iteration c))"
    by (rule for_step_first) simp
  then obtain w1 where w1: "iteration c 0 w0 = Some w1"
    "for_step (Suc 0) 2 1 (iteration c) w1 = Some w2"
    using assms by (auto split: bind_splits)
  have "for_step (Suc 0) 2 1 (iteration c) w1
          = Option.bind (iteration c (Suc 0) w1) (for_step (Suc (Suc 0)) 2 1 (iteration c))"
    by (rule for_step_first) simp
  moreover have "for_step (Suc (Suc 0)) 2 1 (iteration c) w = Some w" for w
    by (rule for_step_empty) simp
  ultimately have w2: "iteration c 1 w1 = Some w2"
    using w1(2) by (auto split: bind_splits)
  have a: "transpose_once c (ranks w0) = Some (ranks w1)" "trace w1 = trace w0"
    using w1(1) by (auto simp: iteration_def split: bind_splits)
  have b: "transpose_once c (ranks w1) = Some (ranks w2)"
    "trace w2 = trace w1 @ [(Barrier, ranks w1), (Timer_start, ranks w1)]"
    using w2 by (auto simp: iteration_def split: bind_splits)
  show ?thesis using a b by simp
qed

lemma run_trace:
  assumes "run c junk = Some w" "1 \<le> iterations c"
  shows "\<exists>w0 ps1. start c junk = Some w0 \<and> trace w0 = [] \<and>
           transpose_once c (ranks w0) = Some ps1 \<and>
           for_step 1 (Suc (iterations c)) 1 (\<lambda>iter. transpose_once c) ps1 = Some (ranks w) \<and>
           trace w = [(Barrier, ps1), (Timer_start, ps1), (Timer_stop, ranks w)]"
proof -
  let ?n = "Suc (iterations c)"
  obtain w0 where w0: "start c junk = Some w0" "iterate c w0 = Some w"
    using assms(1) by (auto simp: run_def split: bind_splits)
  have t0: "trace w0 = []" using w0(1) by (auto simp: start_def split: bind_splits)
  obtain wl where wl: "for_step 0 ?n 1 (iteration c) w0 = Some wl"
    "w = wl\<lparr>trace := trace wl @ [(Timer_stop, ranks wl)]\<rparr>"
    using w0(2) by (auto simp: iterate_def split: bind_splits if_splits)
  have "for_step 0 ?n 1 (iteration c) w0
          = Option.bind (for_step 0 2 1 (iteration c) w0) (for_step 2 ?n 1 (iteration c))"
    using assms(2) by (intro for_step_split) simp_all
  then obtain w2 where w2: "for_step 0 2 1 (iteration c) w0 = Some w2"
    "for_step 2 ?n 1 (iteration c) w2 = Some wl"
    using wl(1) by (auto split: bind_splits)
  obtain ps1 where ps1: "transpose_once c (ranks w0) = Some ps1"
    "transpose_once c ps1 = Some (ranks w2)"
    "trace w2 = trace w0 @ [(Barrier, ps1), (Timer_start, ps1)]"
    using first_passes [OF w2(1)] by blast
  have l: "for_step 2 ?n 1 (\<lambda>iter. transpose_once c) (ranks w2) = Some (ranks wl)"
    "trace wl = trace w2"
    using timed_loop [OF w2(2)] by simp_all
  have "for_step 1 ?n 1 (\<lambda>iter. transpose_once c) ps1
          = Option.bind (transpose_once c ps1) (for_step (Suc 1) ?n 1 (\<lambda>iter. transpose_once c))"
    using assms(2) by (intro for_step_first) simp
  moreover have "Suc 1 = 2" by simp
  ultimately have "for_step 1 ?n 1 (\<lambda>iter. transpose_once c) ps1 = Some (ranks wl)"
    using ps1(2) l(1) by (simp del: One_nat_def)
  then show ?thesis using w0(1) t0 ps1 l(2) wl(2) by simp
qed



lemma trans_time_Max:
  assumes "1 \<le> Num_procs c"
  shows "trans_time rnd c t0 t1 = Max ((\<lambda>r. rnd (t1 r - t0 r)) ` {..<Num_procs c})"
proof -
  let ?l = "local_trans_time rnd t0 t1"
  have "[0..<Num_procs c] = 0 # [1..<Num_procs c]" using assms by (simp add: upt_conv_Cons)
  then have "set (?l 0 # map ?l [1..<Num_procs c]) = ?l ` {..<Num_procs c}"
    by (metis atLeast0LessThan list.simps(9) set_map set_upt)
  moreover have "trans_time rnd c t0 t1 = Max (set (?l 0 # map ?l [1..<Num_procs c]))"
    by (simp only: trans_time_def Max.set_eq_fold)
  moreover have "?l = (\<lambda>r. rnd (t1 r - t0 r))" by (rule ext) (simp add: local_trans_time_def)
  ultimately show ?thesis by simp
qed

lemma bytes_in_range:
  assumes "in_range c"
  shows "bytes c = 2 * 8 * order c * order c"
proof -
  have "order c * order c \<le> 2 ^ 53" using assms by (simp add: in_range_def)
  then have "2 * 8 * (order c * order c) < 2 ^ 64" by simp
  then show ?thesis by (simp add: bytes_def mult.assoc)
qed


text \<open>
  Claim C7. On an input that is accepted and in range (the iteration count \<open>k\<close> is then
  at least 1) the run returns, and it is the initialisation, one transposition, the
  barrier and the start of the timer in the state that this transposition has left,
  \<open>k\<close> further transpositions, and the stop of the timer in the final state: \<open>k + 1\<close>
  transpositions, of which the first is not timed. The store counters say the same:
  every cell of \<open>B\<close> has been stored once by the initialisation, twice when the timer
  starts and \<open>k + 2\<close> times when it stops. The time reported is the maximum over the
  ranks of the local elapsed times, the average is its rounded quotient by \<open>k\<close>, and the
  rate, in MB/s, is the rounded quotient of \<open>1.0E-06 * (2 * 8 * order^2)\<close> by the
  average; with an average of zero the program prints an infinity or a NaN.
\<close>

theorem timing_report:
  assumes "accepted MAX_THREADS c" and "in_range c" and "rounding rnd"
  shows "(\<exists>w0 ps1 w.
            start c junk = Some w0 \<and> trace w0 = [] \<and>
            transpose_once c (ranks w0) = Some ps1 \<and>
            for_step 1 (Suc (iterations c)) 1 (\<lambda>iter. transpose_once c) ps1 = Some (ranks w) \<and>
            run c junk = Some w \<and>
            trace w = [(Barrier, ps1), (Timer_start, ps1), (Timer_stop, ranks w)] \<and>
            (\<forall>r<Num_procs c. \<forall>k<Colblock_size c.
               snd (B_p (ranks w0 ! r) ! k) = 1 \<and>
               snd (B_p (ps1 ! r) ! k) = 2 \<and>
               snd (B_p (ranks w ! r) ! k) = iterations c + 2))
       \<and> trans_time rnd c t0 t1 = Max ((\<lambda>r. rnd (t1 r - t0 r)) ` {..<Num_procs c})
       \<and> avgtime rnd c t0 t1
           = Finite (rnd (Max ((\<lambda>r. rnd (t1 r - t0 r)) ` {..<Num_procs c})
                            / rnd (real (iterations c))))
       \<and> (\<forall>a. avgtime rnd c t0 t1 = Finite a \<longrightarrow>
            (a \<noteq> 0 \<longrightarrow>
               rate_MBs rnd c t0 t1
                 = Finite (rnd (rnd (rnd (1 / 10 ^ 6) * rnd (real (2 * 8 * order c * order c))) / a))) \<and>
            (a = 0 \<longrightarrow> rate_MBs rnd c t0 t1 \<in> {Infinity, NaN}))"
proof (intro conjI)
  have c: "valid c" using assms(1,2) by (rule validI)
  have k: "1 \<le> iterations c" using assms(1) by (simp add: accepted_def)
  have P: "1 \<le> Num_procs c" using assms(2) by (simp add: in_range_def)
  obtain wl where wl: "run c junk = Some (wl\<lparr>trace := trace wl @ [(Timer_stop, ranks wl)]\<rparr>)"
    "world_inv c (Suc (iterations c)) wl"
    using run_ok [OF c] by blast
  let ?w = "wl\<lparr>trace := trace wl @ [(Timer_stop, ranks wl)]\<rparr>"
  obtain w0 ps1 where t: "start c junk = Some w0" "trace w0 = []"
    "transpose_once c (ranks w0) = Some ps1"
    "for_step 1 (Suc (iterations c)) 1 (\<lambda>iter. transpose_once c) ps1 = Some (ranks ?w)"
    "trace ?w = [(Barrier, ps1), (Timer_start, ps1), (Timer_stop, ranks ?w)]"
    using run_trace [OF wl(1) k] by blast
  have i0: "ranks_inv c 0 (ranks w0)"
    using start_ok [OF c, of junk] t(1) by (simp add: world_inv_def)
  have i1: "ranks_inv c 1 ps1"
    using transpose_once_ok [OF c i0] t(3) by simp
  have il: "ranks_inv c (Suc (iterations c)) (ranks ?w)"
    using wl(2) by (simp add: world_inv_def)
  have "snd (B_p (ranks w0 ! r) ! k) = 1 \<and> snd (B_p (ps1 ! r) ! k) = 2 \<and>
          snd (B_p (ranks ?w ! r) ! k) = iterations c + 2"
    if "r < Num_procs c" "k < Colblock_size c" for r k
    using i0 i1 il that by (simp add: ranks_inv_def nth_B_after)
  then show "\<exists>w0 ps1 w.
            start c junk = Some w0 \<and> trace w0 = [] \<and>
            transpose_once c (ranks w0) = Some ps1 \<and>
            for_step 1 (Suc (iterations c)) 1 (\<lambda>iter. transpose_once c) ps1 = Some (ranks w) \<and>
            run c junk = Some w \<and>
            trace w = [(Barrier, ps1), (Timer_start, ps1), (Timer_stop, ranks w)] \<and>
            (\<forall>r<Num_procs c. \<forall>k<Colblock_size c.
               snd (B_p (ranks w0 ! r) ! k) = 1 \<and>
               snd (B_p (ps1 ! r) ! k) = 2 \<and>
               snd (B_p (ranks w ! r) ! k) = iterations c + 2)"
    using t wl(1) by blast
  show T: "trans_time rnd c t0 t1 = Max ((\<lambda>r. rnd (t1 r - t0 r)) ` {..<Num_procs c})"
    using P by (rule trans_time_Max)
  have d: "rnd (real (iterations c)) \<noteq> 0"
    using rounding_nat(2) [OF assms(3) k] by simp
  show "avgtime rnd c t0 t1
           = Finite (rnd (Max ((\<lambda>r. rnd (t1 r - t0 r)) ` {..<Num_procs c})
                            / rnd (real (iterations c))))"
    using d by (simp add: avgtime_def T)
  show "\<forall>a. avgtime rnd c t0 t1 = Finite a \<longrightarrow>
            (a \<noteq> 0 \<longrightarrow>
               rate_MBs rnd c t0 t1
                 = Finite (rnd (rnd (rnd (1 / 10 ^ 6) * rnd (real (2 * 8 * order c * order c))) / a))) \<and>
            (a = 0 \<longrightarrow> rate_MBs rnd c t0 t1 \<in> {Infinity, NaN})"
    by (simp add: rate_MBs_def bytes_in_range [OF assms(2)])
qed

theorem timing_report_witness:
  "(\<exists>w0 ps1 w. start c_spec (\<lambda>r b k. 0) = Some w0 \<and>
       transpose_once c_spec (ranks w0) = Some ps1 \<and>
       transpose_once c_spec ps1 = Some (ranks w) \<and>
       run c_spec (\<lambda>r b k. 0) = Some w \<and>
       trace w = [(Barrier, ps1), (Timer_start, ps1), (Timer_stop, ranks w)] \<and>
       snd (B_p (ranks w0 ! 1) ! 5) = 1 \<and> snd (B_p (ps1 ! 1) ! 5) = 2 \<and>
       snd (B_p (ranks w ! 1) ! 5) = 3)
   \<and> trans_time (\<lambda>x. x) c_spec (\<lambda>r. 0) (\<lambda>r. 2 + real r) = 3
   \<and> avgtime (\<lambda>x. x) c_spec (\<lambda>r. 0) (\<lambda>r. 2 + real r) = Finite 3
   \<and> rate_MBs (\<lambda>x. x) c_spec (\<lambda>r. 0) (\<lambda>r. 2 + real r) = Finite (256 / 10 ^ 6 / 3)"
proof -
  have h: "accepted 512 c_spec" "in_range c_spec" "rounding (\<lambda>x. x)"
    by (simp_all add: accepted_def in_range_def rounding_def c_spec_def Block_order_def)
  note t = timing_report [OF h, of "\<lambda>r b k. 0" "\<lambda>r. 0" "\<lambda>r. 2 + real r"]
  have v: "Num_procs c_spec = 2" "order c_spec = 4" "iterations c_spec = 1"
    "Colblock_size c_spec = 8"
    by (simp_all add: c_spec_def Colblock_size_def Block_order_def)
  obtain w0 ps1 w where w: "start c_spec (\<lambda>r b k. 0) = Some w0"
    "transpose_once c_spec (ranks w0) = Some ps1"
    "for_step 1 (Suc (iterations c_spec)) 1 (\<lambda>iter. transpose_once c_spec) ps1 = Some (ranks w)"
    "run c_spec (\<lambda>r b k. 0) = Some w"
    "trace w = [(Barrier, ps1), (Timer_start, ps1), (Timer_stop, ranks w)]"
    and n: "\<forall>r<Num_procs c_spec. \<forall>k<Colblock_size c_spec.
               snd (B_p (ranks w0 ! r) ! k) = 1 \<and>
               snd (B_p (ps1 ! r) ! k) = 2 \<and>
               snd (B_p (ranks w ! r) ! k) = iterations c_spec + 2"
    using t by blast
  have "for_step 1 (Suc 1) 1 (\<lambda>iter. transpose_once c_spec) ps1 = transpose_once c_spec ps1"
    by (rule for_step_one)
  then have o: "transpose_once c_spec ps1 = Some (ranks w)"
    using w(3) by (simp add: v)
  have "snd (B_p (ranks w0 ! 1) ! 5) = 1 \<and> snd (B_p (ps1 ! 1) ! 5) = 2 \<and>
          snd (B_p (ranks w ! 1) ! 5) = iterations c_spec + 2"
    using n [rule_format, of 1 5] by (simp add: v)
  then have a: "\<exists>w0 ps1 w. start c_spec (\<lambda>r b k. 0) = Some w0 \<and>
       transpose_once c_spec (ranks w0) = Some ps1 \<and>
       transpose_once c_spec ps1 = Some (ranks w) \<and>
       run c_spec (\<lambda>r b k. 0) = Some w \<and>
       trace w = [(Barrier, ps1), (Timer_start, ps1), (Timer_stop, ranks w)] \<and>
       snd (B_p (ranks w0 ! 1) ! 5) = 1 \<and> snd (B_p (ps1 ! 1) ! 5) = 2 \<and>
       snd (B_p (ranks w ! 1) ! 5) = 3"
    using w o by (auto simp: v)
  have b: "trans_time (\<lambda>x. x) c_spec (\<lambda>r. 0) (\<lambda>r. 2 + real r) = 3"
    using t by (simp add: v eval_nat_numeral lessThan_Suc)
  have c: "avgtime (\<lambda>x. x) c_spec (\<lambda>r. 0) (\<lambda>r. 2 + real r) = Finite 3"
    using t by (simp add: v eval_nat_numeral lessThan_Suc)
  have "\<forall>a. avgtime (\<lambda>x. x) c_spec (\<lambda>r. 0) (\<lambda>r. 2 + real r) = Finite a \<longrightarrow>
            (a \<noteq> 0 \<longrightarrow>
               rate_MBs (\<lambda>x. x) c_spec (\<lambda>r. 0) (\<lambda>r. 2 + real r)
                 = Finite (1 / 10 ^ 6 * real (2 * 8 * order c_spec * order c_spec) / a)) \<and>
            (a = 0 \<longrightarrow> rate_MBs (\<lambda>x. x) c_spec (\<lambda>r. 0) (\<lambda>r. 2 + real r) \<in> {Infinity, NaN})"
    using t by blast
  then have d: "rate_MBs (\<lambda>x. x) c_spec (\<lambda>r. 0) (\<lambda>r. 2 + real r) = Finite (256 / 10 ^ 6 / 3)"
    using c by (simp add: v)
  show ?thesis using a b c d by blast
qed

subsection \<open>The two strategies of the local transpose\<close>

lemma for_step_fails:
  assumes "0 < t" and "k \<in> steps i n t" and "\<And>s. body k s = None"
  shows "for_step i n t body s = None"
  using assms
proof (induction i n t body s rule: for_step.induct)
  case (1 i n t body s)
  have lt: "i < n" using 1(3) by (auto simp: steps_def)
  have st: "steps i n t = insert i (steps (i + t) n t)" using lt 1(2) by (rule steps_next)
  show ?case
  proof (cases "body i s")
    case None
    then show ?thesis using lt 1(2) by (simp add: for_step.simps [of i])
  next
    case (Some s1)
    then have "k \<noteq> i" using 1(4) [of s] by auto
    then have k: "k \<in> steps (i + t) n t" using 1(3) st by simp
    have "for_step (i + t) n t body s1 = None"
      using 1(2) by (intro 1(1) [OF lt _ Some _ k 1(4)]) simp_all
    then show ?thesis using lt 1(2) Some by (simp add: for_step.simps [of i])
  qed
qed

lemma unit_steps: "lo \<le> k \<Longrightarrow> k < hi \<Longrightarrow> k \<in> steps lo hi (Suc 0)"
  by (simp add: steps_def)

lemma flat_nest_fails:
  assumes "i < n" "j < m" and "\<And>s. body i j s = None"
  shows "flat_nest n m body s = None"
proof -
  have inner: "for_step 0 m 1 (\<lambda>j. body i j) s = None" for s
    by (rule for_step_fails [where k = j]) (use assms(2,3) in \<open>simp_all add: unit_steps\<close>)
  show ?thesis
    unfolding flat_nest_def
    by (rule for_step_fails [where k = i]) (use assms(1) inner in \<open>simp_all add: unit_steps\<close>)
qed

lemma tile_origin:
  assumes "0 < T" "x < m"
  shows "x div T * T \<in> steps 0 m T" "x div T * T \<le> x" "x < min m (x div T * T + T)"
proof -
  show le: "x div T * T \<le> x" by simp
  then have "x div T * T < m" using assms(2) by (rule le_less_trans)
  then show "x div T * T \<in> steps 0 m T" by (simp add: steps_def)
  have "x < x div T * T + T" using assms(1) by (metis add.commute dividend_less_div_times)
  then show "x < min m (x div T * T + T)" using assms(2) by simp
qed

lemma tiled_nest_fails:
  assumes T: "0 < T" and "i < n" "j < m" and "\<And>s. body i j s = None"
  shows "tiled_nest n m T body s = None"
proof -
  let ?i0 = "i div T * T" and ?j0 = "j div T * T"
  note ti = tile_origin [OF T assms(2)] and tj = tile_origin [OF T assms(3)]
  have l4: "for_step ?j0 (min m (?j0 + T)) 1 (\<lambda>jt. body i jt) s = None" for s
    by (rule for_step_fails [where k = j]) (use tj assms(4) in \<open>simp_all add: unit_steps\<close>)
  have l3: "for_step ?i0 (min n (?i0 + T)) 1 (\<lambda>it.
              for_step ?j0 (min m (?j0 + T)) 1 (\<lambda>jt. body it jt)) s = None" for s
    by (rule for_step_fails [where k = i]) (use ti l4 in \<open>simp_all add: unit_steps\<close>)
  have l2: "for_step 0 m T (\<lambda>j. for_step ?i0 (min n (?i0 + T)) 1 (\<lambda>it.
              for_step j (min m (j + T)) 1 (\<lambda>jt. body it jt))) s = None" for s
    by (rule for_step_fails [where k = ?j0]) (use T tj(1) l3 in simp_all)
  show ?thesis
    unfolding tiled_nest_def
    by (rule for_step_fails [where k = ?i0]) (use T ti(1) l2 in simp_all)
qed

lemma transpose_out_of_range:
  assumes "0 < Bo" and "ord < istart + Bo" and "length a = ord * Bo"
  shows "transpose_flat Bo ord istart dest a b = None"
    and "0 < T \<Longrightarrow> transpose_tiled Bo T ord istart dest a b = None"
proof -
  let ?k = "Bo - 1"
  have k: "?k < Bo" using assms(1) by simp
  have "ord * Bo = ord + ord * ?k" using assms(1) by (cases Bo) simp_all
  also have "\<dots> \<le> (?k + istart) + ord * ?k" using assms(1,2) by simp
  finally have "length a \<le> colblock_ix istart ord ?k ?k"
    using assms(3) by (simp add: colblock_ix_def)
  then have none: "copy_cell a (colblock_ix istart ord ?k ?k) (dest ?k ?k) s = None" for s
    by (simp add: copy_cell_def load_def)
  show "transpose_flat Bo ord istart dest a b = None"
    unfolding transpose_flat_def using k k none by (rule flat_nest_fails)
  show "transpose_tiled Bo T ord istart dest a b = None" if "0 < T"
    unfolding transpose_tiled_def using that k k none by (rule tiled_nest_fails)
qed

lemma transpose_empty_block:
  "transpose_flat 0 ord istart dest a b = Some b"
  "transpose_tiled 0 T ord istart dest a b = Some b"
  by (simp_all add: transpose_flat_def transpose_tiled_def flat_nest_def tiled_nest_def
      for_step_empty)

lemma tiled_flat_same:
  assumes "0 < T" and "length a = ord * Bo"
    and inj: "istart + Bo \<le> ord \<Longrightarrow> inj_on (\<lambda>(i, j). dest j i) ({..<Bo} \<times> {..<Bo})"
    and dst: "\<And>i j. istart + Bo \<le> ord \<Longrightarrow> i < Bo \<Longrightarrow> j < Bo \<Longrightarrow> dest j i < length b"
  shows "transpose_tiled Bo T ord istart dest a b = transpose_flat Bo ord istart dest a b"
    and "istart + Bo \<le> ord \<Longrightarrow>
           \<exists>b'. transpose_flat Bo ord istart dest a b = Some b' \<and> length b' = length b \<and>
             (\<forall>i<Bo. \<forall>j<Bo. load b' (dest j i) = load a (colblock_ix istart ord i j))"
proof -
  have src: "colblock_ix istart ord i j < length a"
    if "istart + Bo \<le> ord" "i < Bo" "j < Bo" for i j
    using that assms(2) by (simp add: colblock_bound)
  consider "Bo = 0" | "0 < Bo" "ord < istart + Bo" | "istart + Bo \<le> ord"
    by linarith
  then show "transpose_tiled Bo T ord istart dest a b = transpose_flat Bo ord istart dest a b"
  proof cases
    case 1
    then show ?thesis by (simp add: transpose_empty_block)
  next
    case 2
    have "transpose_flat Bo ord istart dest a b = None"
      by (rule transpose_out_of_range(1) [OF 2 assms(2)])
    moreover have "transpose_tiled Bo T ord istart dest a b = None"
      by (rule transpose_out_of_range(2) [OF 2 assms(2) assms(1)])
    ultimately show ?thesis by simp
  next
    case 3
    show ?thesis
      using transpose_tiled_flat [OF inj [OF 3] src [OF 3] dst [OF 3] assms(1)] by simp
  qed
  show "\<exists>b'. transpose_flat Bo ord istart dest a b = Some b' \<and> length b' = length b \<and>
             (\<forall>i<Bo. \<forall>j<Bo. load b' (dest j i) = load a (colblock_ix istart ord i j))"
    if 3: "istart + Bo \<le> ord"
    using transpose_tiled_flat [OF inj [OF 3] src [OF 3] dst [OF 3] assms(1)] by simp
qed

text \<open>
  Claim C2. For arrays of the sizes the program allocates, any block order, order and
  \<open>istart\<close>, and a tile order above 0, the tiled nest and the flat nest give the same
  result at both sites: into \<open>B\<close> (lines 333-349) and into \<open>Work_out\<close> (lines 364-380).
  For a block of the column block (\<open>istart + Block_order \<le> order\<close>) the result is an array
  in which every destination element of the block holds the transposed source element,
  \<open>B(j,i) = A(i,j)\<close> and \<open>Work_out(j,i) = A(i,j)\<close>; for any other \<open>istart\<close> both nests
  leave the source array, and both results are \<open>None\<close>.
\<close>

theorem tiled_equals_flat:
  assumes "0 < T" and "length a = ord * Bo" and "length b = ord * Bo" and "length w = Bo * Bo"
  shows "transpose_tiled Bo T ord istart (colblock_ix istart ord) a b
           = transpose_flat Bo ord istart (colblock_ix istart ord) a b
       \<and> transpose_tiled Bo T ord istart (work_ix Bo) a w
           = transpose_flat Bo ord istart (work_ix Bo) a w
       \<and> (istart + Bo \<le> ord \<longrightarrow>
            (\<exists>b'. transpose_flat Bo ord istart (colblock_ix istart ord) a b = Some b' \<and>
               length b' = length b \<and>
               (\<forall>i<Bo. \<forall>j<Bo. load b' (colblock_ix istart ord j i)
                                   = load a (colblock_ix istart ord i j))) \<and>
            (\<exists>w'. transpose_flat Bo ord istart (work_ix Bo) a w = Some w' \<and>
               length w' = length w \<and>
               (\<forall>i<Bo. \<forall>j<Bo. load w' (work_ix Bo j i)
                                   = load a (colblock_ix istart ord i j))))"
proof -
  have dstB: "colblock_ix istart ord j i < length b"
    if "istart + Bo \<le> ord" "i < Bo" "j < Bo" for i j
    using that assms by (simp add: colblock_bound)
  have dstW: "work_ix Bo j i < length w" if "i < Bo" "j < Bo" for i j
    using that assms by (simp add: work_bound)
  have injB: "inj_on (\<lambda>(i, j). colblock_ix istart ord j i) ({..<Bo} \<times> {..<Bo})"
    if "istart + Bo \<le> ord"
    using that by (rule inj_colblock)
  have injW: "inj_on (\<lambda>(i, j). work_ix Bo j i) ({..<Bo} \<times> {..<Bo})"
    by (rule inj_work)
  note B = tiled_flat_same [of T a ord Bo istart "colblock_ix istart ord" b,
      OF assms(1,2) injB dstB]
  note W = tiled_flat_same [of T a ord Bo istart "work_ix Bo" w,
      OF assms(1,2) injW dstW]
  show ?thesis using B W by blast
qed

theorem tiled_equals_flat_witness:
  "transpose_tiled 3 2 6 3 (colblock_ix 3 6) (malloc real 18) (malloc (\<lambda>k. 0) 18)
     = transpose_flat 3 6 3 (colblock_ix 3 6) (malloc real 18) (malloc (\<lambda>k. 0) 18)
   \<and> transpose_tiled 3 2 6 3 (work_ix 3) (malloc real 18) (malloc (\<lambda>k. 0) 9)
     = transpose_flat 3 6 3 (work_ix 3) (malloc real 18) (malloc (\<lambda>k. 0) 9)
   \<and> (\<exists>w'. transpose_flat 3 6 3 (work_ix 3) (malloc real 18) (malloc (\<lambda>k. 0) 9) = Some w' \<and>
         load w' (work_ix 3 2 1) = load (malloc real 18) (colblock_ix 3 6 1 2))"
proof -
  have h: "(0::nat) < 2" "length (malloc real 18) = 6 * 3"
    "length (malloc (\<lambda>k. 0) 18) = 6 * 3" "length (malloc (\<lambda>k. 0) 9) = 3 * 3"
    by simp_all
  note t = tiled_equals_flat [OF h, of 3]
  have "\<exists>w'. transpose_flat 3 6 3 (work_ix 3) (malloc real 18) (malloc (\<lambda>k. 0) 9) = Some w' \<and>
          length w' = length (malloc (\<lambda>k. 0) 9) \<and>
          (\<forall>i<3. \<forall>j<3. load w' (work_ix 3 j i) = load (malloc real 18) (colblock_ix 3 6 i j))"
    using t by simp
  then obtain w' where w': "transpose_flat 3 6 3 (work_ix 3) (malloc real 18) (malloc (\<lambda>k. 0) 9) = Some w'"
    "\<forall>i<3. \<forall>j<3. load w' (work_ix 3 j i) = load (malloc real 18) (colblock_ix 3 6 i j)"
    by blast
  have "load w' (work_ix 3 2 1) = load (malloc real 18) (colblock_ix 3 6 1 2)"
    using w'(2) [rule_format, of 1 2] by simp
  then show ?thesis using t w'(1) by blast
qed

end
